theory Spec2Isabelle
  imports Main "HOL-Library.Word" "HOL-Library.Multiset"
begin

section \<open>happy.c: a TCP happy-eyeballs probing tool\<close>

text \<open>
  The program is single threaded. What it learns from the operating system is an input
  of the model: every pass through a loop that calls \<open>gettimeofday\<close>, \<open>select\<close>,
  \<open>getsockopt\<close>, \<open>socket\<close>, \<open>fcntl\<close> or \<open>connect\<close> takes a record with the
  results of those calls. A loop that needs another record when none is left gives
  \<open>ScriptEnd\<close>; this is a limit of the input, not an outcome of the program.
  \<open>exit(EXIT_FAILURE)\<close> is the error \<open>ExitFailure\<close>, a failed \<open>assert\<close> is
  \<open>AssertFailed\<close>, and a read or write outside the object it addresses is
  \<open>OutOfBounds\<close>. Messages on \<open>stderr\<close>, \<open>close\<close>, the advisory file lock
  (\<open>lock\<close>, \<open>unlock\<close>) and \<open>cleanup\<close> have no effect on what is modelled and are
  left out.
\<close>

datatype error = ExitFailure | AssertFailed | OutOfBounds | ScriptEnd

subsection \<open>struct timeval and the timer macros\<close>

record timeval =
  tv_sec :: int
  tv_usec :: int

definition timersub :: "timeval \<Rightarrow> timeval \<Rightarrow> timeval" where
  "timersub a b =
     (let s = tv_sec a - tv_sec b; u = tv_usec a - tv_usec b
      in if u < 0 then \<lparr>tv_sec = s - 1, tv_usec = u + 1000000\<rparr>
         else \<lparr>tv_sec = s, tv_usec = u\<rparr>)"

definition timeradd :: "timeval \<Rightarrow> timeval \<Rightarrow> timeval" where
  "timeradd a b =
     (let s = tv_sec a + tv_sec b; u = tv_usec a + tv_usec b
      in if u \<ge> 1000000 then \<lparr>tv_sec = s + 1, tv_usec = u - 1000000\<rparr>
         else \<lparr>tv_sec = s, tv_usec = u\<rparr>)"

text \<open>\<open>timercmp(a, b, <)\<close>\<close>

definition timercmp_lt :: "timeval \<Rightarrow> timeval \<Rightarrow> bool" where
  "timercmp_lt a b =
     (if tv_sec a = tv_sec b then tv_usec a < tv_usec b else tv_sec a < tv_sec b)"

subsection \<open>Endpoints, targets and the global settings\<close>

text \<open>
  \<open>sum\<close>, \<open>tot\<close>, \<open>idx\<close> and \<open>cnt\<close> are \<open>unsigned int\<close>: 32-bit words that wrap.
  \<open>values\<close> points to a buffer of \<open>int\<close>; the list is the buffer, one entry per slot
  that was allocated, each entry the value of the \<open>int\<close>. \<open>socket\<close> is an \<open>int\<close>;
  0 means that no connect is pending. \<open>addr\<close> stands for the bytes of the socket
  address.
\<close>

record endpoint =
  family :: int
  socktype :: int
  protocol :: int
  addr :: string
  addrlen :: nat
  socket :: int
  tvs :: timeval
  sum_ep :: "32 word"
  tot :: "32 word"
  idx :: "32 word"
  cnt :: "32 word"
  "values" :: "int list"

text \<open>
  The linked list of targets is a list. \<open>host\<close> and \<open>port\<close> are pointers (\<open>None\<close>
  is \<open>NULL\<close>). \<open>endpoints\<close> is the array without its last, zeroed entry:
  \<open>expand\<close> allocates \<open>1 + num_endpoints\<close> entries and fills the first
  \<open>num_endpoints\<close>, so the end of the list stands for the entry whose \<open>addrlen\<close> is 0.
\<close>

record target =
  host :: "string option"
  port :: "string option"
  num_endpoints :: nat
  endpoints :: "endpoint list"

text \<open>
  The static variables \<open>smode\<close>, \<open>skmode\<close>, \<open>nqueries\<close>, \<open>timeout\<close>, \<open>delay\<close>.
  \<open>delay\<close> is an \<open>unsigned int\<close> that only ever receives a non-negative \<open>int\<close>.
\<close>

record config =
  smode :: bool
  skmode :: bool
  nqueries :: int
  timeout :: int
  delay :: int

definition target_valid :: "target \<Rightarrow> bool" where
  "target_valid tp = (host tp \<noteq> None \<and> port tp \<noteq> None)"

definition endpoint_valid :: "endpoint \<Rightarrow> bool" where
  "endpoint_valid ep = (addrlen ep \<noteq> 0)"

subsection \<open>trim\<close>

definition NUL :: char where
  "NUL = CHR 0x00"

text \<open>\<open>isspace\<close> in the C locale: space, \<open>\t\<close>, \<open>\n\<close>, \<open>\v\<close>, \<open>\f\<close>, \<open>\r\<close>.\<close>

definition isspace :: "char \<Rightarrow> bool" where
  "isspace c = (c \<in> set [CHR 0x20, CHR 0x09, CHR 0x0A, CHR 0x0B, CHR 0x0C, CHR 0x0D])"

text \<open>The string that starts at the head of a buffer, up to the first NUL.\<close>

definition cstring :: "string \<Rightarrow> string" where
  "cstring buf = takeWhile (\<lambda>c. c \<noteq> NUL) buf"

definition strlen :: "string \<Rightarrow> nat" where
  "strlen buf = length (cstring buf)"

text \<open>
  \<open>while(isspace(p[l-1]) && l) p[--l] = 0;\<close> on the buffer \<open>buf\<close> that starts at \<open>p\<close>.
  The test reads \<open>p[l-1]\<close> before it looks at \<open>l\<close>: when \<open>l\<close> is 0 it reads
  \<open>p[-1]\<close>, outside the buffer.
\<close>

fun trim_tail :: "string \<Rightarrow> nat \<Rightarrow> error + string \<times> nat" where
  "trim_tail buf 0 = Inl OutOfBounds"
| "trim_tail buf (Suc l) =
     (if isspace (buf ! l) then trim_tail (buf[l := NUL]) l else Inr (buf, Suc l))"

text \<open>
  \<open>while(*p && isspace(*p) && l) ++p, --l;\<close> The result is the buffer from the final
  \<open>p\<close> on.
\<close>

fun trim_head :: "string \<Rightarrow> nat \<Rightarrow> string" where
  "trim_head [] l = []"
| "trim_head (c # cs) l =
     (if c \<noteq> NUL \<and> isspace c \<and> l \<noteq> 0 then trim_head cs (l - 1) else c # cs)"

text \<open>
  \<open>trim s\<close> for the string \<open>s\<close>: the buffer holds the characters of \<open>s\<close> and the
  terminating NUL. The result is the string at the returned pointer.
\<close>

definition trim :: "string \<Rightarrow> error + string" where
  "trim s =
     (let buf = s @ [NUL] in
      case trim_tail buf (strlen buf) of
        Inl e \<Rightarrow> Inl e
      | Inr (buf1, l) \<Rightarrow> Inr (cstring (trim_head buf1 l)))"

subsection \<open>expand and append\<close>

record addrinfo =
  ai_family :: int
  ai_socktype :: int
  ai_protocol :: int
  ai_addr :: string
  ai_addrlen :: nat

text \<open>
  What does not change while the program runs: the resolver (\<open>None\<close>: \<open>getaddrinfo\<close>
  fails), the files that \<open>import\<close> may read (\<open>None\<close>: \<open>fopen\<close> fails; otherwise the
  strings that successive \<open>fgets\<close> calls store and whether \<open>ferror\<close> is set at the end,
  with the name \<open>-\<close> for standard input), \<open>getnameinfo\<close> with \<open>NI_NUMERICHOST\<close>
  (\<open>None\<close>: it fails), the value of \<open>time(NULL)\<close>, and the library's \<open>qsort\<close>.
\<close>

record world =
  getaddrinfo :: "string \<Rightarrow> string \<Rightarrow> addrinfo list option"
  files :: "string \<Rightarrow> (string list \<times> bool) option"
  getnameinfo :: "string \<Rightarrow> string option"
  time_now :: int
  qsort :: "(endpoint \<Rightarrow> endpoint \<Rightarrow> int) \<Rightarrow> endpoint list \<Rightarrow> endpoint list"

text \<open>An endpoint as \<open>xcalloc\<close> leaves it, then filled from one \<open>addrinfo\<close>.\<close>

definition new_endpoint :: "int \<Rightarrow> addrinfo \<Rightarrow> endpoint" where
  "new_endpoint nq ai =
     \<lparr>family = ai_family ai, socktype = ai_socktype ai, protocol = ai_protocol ai,
      addr = ai_addr ai, addrlen = ai_addrlen ai, socket = 0,
      tvs = \<lparr>tv_sec = 0, tv_usec = 0\<rparr>, sum_ep = 0, tot = 0, idx = 0, cnt = 0,
      values = replicate (nat nq) 0\<rparr>"

text \<open>\<open>expand\<close> returns \<open>NULL\<close> (\<open>None\<close>) when the name does not resolve.\<close>

definition expand :: "world \<Rightarrow> config \<Rightarrow> string \<Rightarrow> string \<Rightarrow> target option" where
  "expand w cfg h p =
     (case getaddrinfo w h p of
        None \<Rightarrow> None
      | Some ai_list \<Rightarrow>
          Some \<lparr>host = Some h, port = Some p, num_endpoints = length ai_list,
                endpoints = map (new_endpoint (nqueries cfg)) ai_list\<rparr>)"

definition append_target :: "target list \<Rightarrow> target option \<Rightarrow> target list" where
  "append_target targets t = (case t of None \<Rightarrow> targets | Some tp \<Rightarrow> targets @ [tp])"

subsection \<open>generate_fdset\<close>

text \<open>
  The descriptor set and its maximum, over the endpoints up to the first invalid one of
  the targets up to the first invalid one. \<open>FD_SET\<close> of a negative descriptor is
  undefined in C; the model adds it to the list like any other.
\<close>

fun fdset_eps :: "endpoint list \<Rightarrow> int list \<times> int \<Rightarrow> int list \<times> int" where
  "fdset_eps [] acc = acc"
| "fdset_eps (ep # eps) (fds, mx) =
     (if endpoint_valid ep then
        fdset_eps eps
          (if socket ep \<noteq> 0
           then (fds @ [socket ep], if socket ep > mx then socket ep else mx)
           else (fds, mx))
      else (fds, mx))"

fun fdset_tgts :: "target list \<Rightarrow> int list \<times> int \<Rightarrow> int list \<times> int" where
  "fdset_tgts [] acc = acc"
| "fdset_tgts (tp # tps) acc =
     (if target_valid tp then fdset_tgts tps (fdset_eps (endpoints tp) acc) else acc)"

definition generate_fdset :: "target list \<Rightarrow> int list \<times> int" where
  "generate_fdset targets = fdset_tgts targets ([], -1)"

subsection \<open>update\<close>

text \<open>
  One call of \<open>select\<close> followed by one call of \<open>update\<close>: \<open>sel nfds fdset to\<close> is
  what \<open>select\<close> does with these arguments (\<open>None\<close>: it returns -1; otherwise the
  descriptors it leaves in the set), where \<open>to\<close> is the timeout (\<open>None\<close> for a
  \<open>NULL\<close> pointer); \<open>upd_now\<close> is what \<open>gettimeofday\<close> stores in \<open>update\<close>;
  \<open>upd_gso fd\<close> is what \<open>getsockopt\<close> does for \<open>fd\<close> (\<open>None\<close>: it returns -1;
  otherwise the value it stores in \<open>soerror\<close>).
\<close>

record wait =
  sel :: "int \<Rightarrow> int list \<Rightarrow> timeval option \<Rightarrow> int list option"
  upd_now :: timeval
  upd_gso :: "int \<Rightarrow> int option"

text \<open>\<open>us = td.tv_sec*1000000 + td.tv_usec\<close>, stored in an \<open>unsigned int\<close>.\<close>

definition elapsed_us :: "timeval \<Rightarrow> timeval \<Rightarrow> 32 word" where
  "elapsed_us tv t0 =
     (let td = timersub tv t0 in word_of_int (tv_sec td * 1000000 + tv_usec td))"

text \<open>
  \<open>ep->values[ep->idx] = v\<close>, where \<open>v\<close> is an \<open>unsigned int\<close> converted to \<open>int\<close>.
  A write past the allocated slots is \<open>OutOfBounds\<close>.
\<close>

definition store_value :: "endpoint \<Rightarrow> 32 word \<Rightarrow> error + endpoint" where
  "store_value ep v =
     (if unat (idx ep) < length (values ep)
      then Inr (ep\<lparr>values := (values ep)[unat (idx ep) := sint v]\<rparr>)
      else Inl OutOfBounds)"

text \<open>
  The body of the inner loop of \<open>update\<close>. \<open>timeout * 1000\<close> is computed in \<open>int\<close>
  and converted to \<open>unsigned int\<close> for the comparison with \<open>us\<close> (where the product
  overflows, C leaves it undefined and the model wraps).
\<close>

definition update_ep ::
  "config \<Rightarrow> timeval \<Rightarrow> (int \<Rightarrow> int option) \<Rightarrow> int list \<Rightarrow> endpoint \<Rightarrow> error + endpoint"
where
  "update_ep cfg tv gso fdset ep =
     (let us = elapsed_us tv (tvs ep) in
      if socket ep \<noteq> 0 \<and> us \<ge> word_of_int (timeout cfg * 1000) then
        (case store_value ep (- us) of
           Inl e \<Rightarrow> Inl e
         | Inr ep1 \<Rightarrow> Inr (ep1\<lparr>idx := idx ep1 + 1, socket := 0\<rparr>))
      else if socket ep \<noteq> 0 \<and> socket ep \<in> set fdset then
        (case gso (socket ep) of
           None \<Rightarrow> Inl ExitFailure
         | Some soerror \<Rightarrow>
             if soerror = 0 then
               (case store_value ep us of
                  Inl e \<Rightarrow> Inl e
                | Inr ep1 \<Rightarrow>
                    Inr (ep1\<lparr>sum_ep := sum_ep ep1 + us, tot := tot ep1 + 1,
                              cnt := cnt ep1 + 1, idx := idx ep1 + 1, socket := 0\<rparr>))
             else
               (case store_value ep (- us) of
                  Inl e \<Rightarrow> Inl e
                | Inr ep1 \<Rightarrow>
                    Inr (ep1\<lparr>cnt := cnt ep1 + 1, idx := idx ep1 + 1, socket := 0\<rparr>)))
      else Inr ep)"

fun update_eps ::
  "config \<Rightarrow> timeval \<Rightarrow> (int \<Rightarrow> int option) \<Rightarrow> int list \<Rightarrow> endpoint list
   \<Rightarrow> error + endpoint list"
where
  "update_eps cfg tv gso fdset [] = Inr []"
| "update_eps cfg tv gso fdset (ep # eps) =
     (if endpoint_valid ep then
        (case update_ep cfg tv gso fdset ep of
           Inl e \<Rightarrow> Inl e
         | Inr ep1 \<Rightarrow>
             (case update_eps cfg tv gso fdset eps of
                Inl e \<Rightarrow> Inl e
              | Inr eps1 \<Rightarrow> Inr (ep1 # eps1)))
      else Inr (ep # eps))"

fun update_tgts ::
  "config \<Rightarrow> timeval \<Rightarrow> (int \<Rightarrow> int option) \<Rightarrow> int list \<Rightarrow> target list
   \<Rightarrow> error + target list"
where
  "update_tgts cfg tv gso fdset [] = Inr []"
| "update_tgts cfg tv gso fdset (tp # tps) =
     (if target_valid tp then
        (case update_eps cfg tv gso fdset (endpoints tp) of
           Inl e \<Rightarrow> Inl e
         | Inr eps1 \<Rightarrow>
             (case update_tgts cfg tv gso fdset tps of
                Inl e \<Rightarrow> Inl e
              | Inr tps1 \<Rightarrow> Inr (tp\<lparr>endpoints := eps1\<rparr> # tps1)))
      else Inr (tp # tps))"

text \<open>
  \<open>update(targets, fdset)\<close>; \<open>tv\<close> and \<open>gso\<close> are the results of its
  \<open>gettimeofday\<close> and \<open>getsockopt\<close> calls.
\<close>

definition update ::
  "config \<Rightarrow> target list \<Rightarrow> int list \<Rightarrow> timeval \<Rightarrow> (int \<Rightarrow> int option)
   \<Rightarrow> error + target list"
where
  "update cfg targets fdset tv gso =
     (case targets of
        [] \<Rightarrow> Inl AssertFailed
      | _ \<Rightarrow> update_tgts cfg tv gso fdset targets)"

subsection \<open>prepare\<close>

text \<open>
  One pass through the \<open>while (1)\<close> loop that naps before a connect: \<open>now\<close> is what
  \<open>gettimeofday\<close> stores in \<open>dtn\<close>; the rest is the \<open>select\<close> and the \<open>update\<close>
  that follow when the nap is not over.
\<close>

record nap_pass = wait +
  now :: timeval

text \<open>
  One pass through the inner \<open>for\<close> loop of \<open>prepare\<close>: \<open>nap_start\<close> is what
  \<open>gettimeofday\<close> stores in \<open>dts\<close>, \<open>nap_passes\<close> are the passes of the nap,
  \<open>sock\<close> is the value that \<open>socket\<close> returns together with \<open>errno\<close> after the call,
  \<open>setfl_failed\<close> says whether \<open>fcntl(F_SETFL)\<close> returns -1, \<open>conn\<close> is the outcome
  of \<open>connect\<close>, and \<open>started\<close> is what \<open>gettimeofday\<close> stores in \<open>ep->tvs\<close>.
\<close>

datatype sock_errno = EAFNOSUPPORT | EPROTONOSUPPORT | EOTHER

datatype connect_result = Connected | EINPROGRESS | ConnectFailed

record visit =
  nap_start :: timeval
  nap_passes :: "nap_pass list"
  sock :: "int \<times> sock_errno"
  setfl_failed :: bool
  conn :: connect_result
  started :: timeval

text \<open>\<open>dd.tv_sec = delay / 1000; dd.tv_usec = (delay % 1000) * 1000;\<close>\<close>

definition delay_tv :: "config \<Rightarrow> timeval" where
  "delay_tv cfg =
     \<lparr>tv_sec = delay cfg div 1000, tv_usec = (delay cfg mod 1000) * 1000\<rparr>"

text \<open>The \<open>while (1)\<close> loop of \<open>prepare\<close>, started with \<open>dts\<close>.\<close>

fun nap :: "config \<Rightarrow> timeval \<Rightarrow> target list \<Rightarrow> nap_pass list \<Rightarrow> error + target list" where
  "nap cfg dts targets [] = Inl ScriptEnd"
| "nap cfg dts targets (p # ps) =
     (let (fdset, mx) = generate_fdset targets;
          dtn = now p;
          dtd = timersub dtn dts
      in if timercmp_lt (delay_tv cfg) dtd then Inr targets
         else
           (let to = timersub (timeradd dts (delay_tv cfg)) dtn in
            case sel p (1 + mx) fdset (Some to) of
              None \<Rightarrow> Inl ExitFailure
            | Some ready \<Rightarrow>
                (case update cfg targets ready (upd_now p) (upd_gso p) of
                   Inl e \<Rightarrow> Inl e
                 | Inr targets1 \<Rightarrow> nap cfg dts targets1 ps)))"

text \<open>Writing the endpoint \<open>ei\<close> of the target \<open>ti\<close>.\<close>

definition set_endpoint :: "target list \<Rightarrow> nat \<Rightarrow> nat \<Rightarrow> endpoint \<Rightarrow> target list" where
  "set_endpoint targets ti ei ep =
     targets[ti := (targets ! ti)\<lparr>endpoints := (endpoints (targets ! ti))[ei := ep]\<rparr>]"

text \<open>
  The body of the inner \<open>for\<close> loop of \<open>prepare\<close>, for the endpoint \<open>ei\<close> of the target
  \<open>ti\<close>. The nap works on the global list, this endpoint included. The cases
  \<open>EAFNOSUPPORT\<close> and \<open>EPROTONOSUPPORT\<close> leave the loop body with \<open>continue\<close> while
  \<open>ep->socket\<close> still holds what \<open>socket\<close> returned.
\<close>

definition prepare_ep ::
  "config \<Rightarrow> nat \<Rightarrow> nat \<Rightarrow> target list \<Rightarrow> visit \<Rightarrow> error + target list"
where
  "prepare_ep cfg ti ei targets v =
     (case (if delay cfg \<noteq> 0 then nap cfg (nap_start v) targets (nap_passes v)
            else Inr targets) of
        Inl e \<Rightarrow> Inl e
      | Inr targets1 \<Rightarrow>
          (let ep = endpoints (targets1 ! ti) ! ei;
               ep1 = ep\<lparr>socket := fst (sock v)\<rparr>
           in if socket ep1 < 0 then
                (case snd (sock v) of
                   EAFNOSUPPORT \<Rightarrow> Inr (set_endpoint targets1 ti ei ep1)
                 | EPROTONOSUPPORT \<Rightarrow> Inr (set_endpoint targets1 ti ei ep1)
                 | EOTHER \<Rightarrow> Inr (set_endpoint targets1 ti ei (ep1\<lparr>socket := 0\<rparr>)))
              else if setfl_failed v then
                Inr (set_endpoint targets1 ti ei (ep1\<lparr>socket := 0\<rparr>))
              else if conn v = ConnectFailed then
                Inr (set_endpoint targets1 ti ei (ep1\<lparr>socket := 0\<rparr>))
              else Inr (set_endpoint targets1 ti ei (ep1\<lparr>tvs := started v\<rparr>))))"

text \<open>
  The inner \<open>for\<close> loop from the endpoint \<open>ei\<close> on; \<open>n\<close> counts the entries that are
  left before the zeroed one that ends the array.
\<close>

fun prepare_eps ::
  "config \<Rightarrow> nat \<Rightarrow> nat \<Rightarrow> nat \<Rightarrow> target list \<Rightarrow> visit list
   \<Rightarrow> error + target list \<times> visit list"
where
  "prepare_eps cfg ti ei 0 targets vs = Inr (targets, vs)"
| "prepare_eps cfg ti ei (Suc n) targets vs =
     (if endpoint_valid (endpoints (targets ! ti) ! ei) then
        (case vs of
           [] \<Rightarrow> Inl ScriptEnd
         | v # vs1 \<Rightarrow>
             (case prepare_ep cfg ti ei targets v of
                Inl e \<Rightarrow> Inl e
              | Inr targets1 \<Rightarrow> prepare_eps cfg ti (Suc ei) n targets1 vs1))
      else Inr (targets, vs))"

text \<open>The outer \<open>for\<close> loop from the target \<open>ti\<close> on; \<open>n\<close> counts the targets left.\<close>

fun prepare_tgts ::
  "config \<Rightarrow> nat \<Rightarrow> nat \<Rightarrow> target list \<Rightarrow> visit list \<Rightarrow> error + target list \<times> visit list"
where
  "prepare_tgts cfg ti 0 targets vs = Inr (targets, vs)"
| "prepare_tgts cfg ti (Suc n) targets vs =
     (if target_valid (targets ! ti) then
        (case prepare_eps cfg ti 0 (length (endpoints (targets ! ti))) targets vs of
           Inl e \<Rightarrow> Inl e
         | Inr (targets1, vs1) \<Rightarrow> prepare_tgts cfg (Suc ti) n targets1 vs1)
      else Inr (targets, vs))"

definition prepare :: "config \<Rightarrow> target list \<Rightarrow> visit list \<Rightarrow> error + target list" where
  "prepare cfg targets vs =
     (case targets of
        [] \<Rightarrow> Inl AssertFailed
      | tp # _ \<Rightarrow>
          if num_endpoints tp = 0 then Inr targets
          else map_sum id fst (prepare_tgts cfg 0 (length targets) targets vs))"

subsection \<open>collect\<close>

text \<open>
  The timeout that \<open>collect\<close> hands to \<open>select\<close>: \<open>timeout ? &to : NULL\<close>, with
  \<open>to\<close> filled in under \<open>if (timeout)\<close>. C's \<open>/\<close> and \<open>%\<close> truncate towards zero.
\<close>

definition collect_to :: "config \<Rightarrow> timeval option" where
  "collect_to cfg =
     (if timeout cfg \<noteq> 0
      then Some \<lparr>tv_sec = sgn (timeout cfg) * (\<bar>timeout cfg\<bar> div 1000),
                 tv_usec = sgn (timeout cfg) * (\<bar>timeout cfg\<bar> mod 1000) * 1000\<rparr>
      else None)"

fun collect_loop :: "config \<Rightarrow> target list \<Rightarrow> wait list \<Rightarrow> error + target list" where
  "collect_loop cfg targets [] =
     (let (fdset, mx) = generate_fdset targets in
      if mx = -1 then Inr targets else Inl ScriptEnd)"
| "collect_loop cfg targets (p # ps) =
     (let (fdset, mx) = generate_fdset targets in
      if mx = -1 then Inr targets
      else
        (case sel p (1 + mx) fdset (collect_to cfg) of
           None \<Rightarrow> Inl ExitFailure
         | Some ready \<Rightarrow>
             (case update cfg targets ready (upd_now p) (upd_gso p) of
                Inl e \<Rightarrow> Inl e
              | Inr targets1 \<Rightarrow> collect_loop cfg targets1 ps)))"

definition collect :: "config \<Rightarrow> target list \<Rightarrow> wait list \<Rightarrow> error + target list" where
  "collect cfg targets ps =
     (case targets of [] \<Rightarrow> Inl AssertFailed | _ \<Rightarrow> collect_loop cfg targets ps)"

subsection \<open>cmp and sort\<close>

text \<open>\<open>sum\<close> and \<open>tot\<close> are unsigned, so \<open>/\<close> is the division of 32-bit words.\<close>

definition cmp :: "endpoint \<Rightarrow> endpoint \<Rightarrow> int" where
  "cmp pa pb =
     (if tot pa = 0 \<or> tot pb = 0 then 0
      else if sum_ep pa div tot pa < sum_ep pb div tot pb then -1
      else if sum_ep pa div tot pa > sum_ep pb div tot pb then 1
      else 0)"

text \<open>
  \<open>qsort(tp->endpoints, tp->num_endpoints, sizeof(*ep), cmp)\<close> sorts the first
  \<open>num_endpoints\<close> entries of the array in place.
\<close>

fun sort_tgts ::
  "((endpoint \<Rightarrow> endpoint \<Rightarrow> int) \<Rightarrow> endpoint list \<Rightarrow> endpoint list) \<Rightarrow> target list
   \<Rightarrow> target list"
where
  "sort_tgts qs [] = []"
| "sort_tgts qs (tp # tps) =
     (if target_valid tp then
        tp\<lparr>endpoints := qs cmp (take (num_endpoints tp) (endpoints tp))
                           @ drop (num_endpoints tp) (endpoints tp)\<rparr>
        # sort_tgts qs tps
      else tp # tps)"

definition sort_targets :: "world \<Rightarrow> target list \<Rightarrow> error + target list" where
  "sort_targets w targets =
     (case targets of [] \<Rightarrow> Inl AssertFailed | _ \<Rightarrow> Inr (sort_tgts (qsort w) targets))"

subsection \<open>report and report_sk\<close>

text \<open>Decimal digits of a number, as \<open>printf\<close> writes them.\<close>

definition digit_char :: "nat \<Rightarrow> char" where
  "digit_char d = ''0123456789'' ! d"

function dec :: "nat \<Rightarrow> string" where
  "dec n = (if n < 10 then [digit_char n] else dec (n div 10) @ [digit_char (n mod 10)])"
  by pat_completeness auto
termination
  by (relation "measure id") auto

text \<open>\<open>%d\<close>\<close>

definition show_int :: "int \<Rightarrow> string" where
  "show_int i = (if i < 0 then CHR ''-'' # dec (nat (- i)) else dec (nat i))"

text \<open>A minimum field width: padding on the left, nothing cut.\<close>

definition pad_left :: "nat \<Rightarrow> char \<Rightarrow> string \<Rightarrow> string" where
  "pad_left w c s = replicate (w - length s) c @ s"

text \<open>
  The samples that the report loops read: \<open>values[i]\<close> for \<open>i < idx\<close>.
\<close>

definition read_samples :: "endpoint \<Rightarrow> error + int list" where
  "read_samples ep =
     (if unat (idx ep) \<le> length (values ep) then Inr (take (unat (idx ep)) (values ep))
      else Inl OutOfBounds)"

text \<open>
  One sample in \<open>report\<close>: \<open>" %4u.%03u"\<close> of \<open>values[i] / 1000\<close> and
  \<open>values[i] % 1000\<close> when \<open>values[i] >= 0\<close>, a star otherwise.
\<close>

definition report_value :: "int \<Rightarrow> string" where
  "report_value v =
     (if v \<ge> 0
      then '' '' @ pad_left 4 (CHR '' '') (dec (nat (v div 1000))) @ ''.''
           @ pad_left 3 (CHR ''0'') (dec (nat (v mod 1000)))
      else ''     *   '')"

text \<open>A pointer printed with \<open>%s\<close>.\<close>

definition str :: "string option \<Rightarrow> string" where
  "str p = (case p of None \<Rightarrow> ''(null)'' | Some s \<Rightarrow> s)"

text \<open>
  The line of one endpoint in \<open>report\<close>; nothing is printed when \<open>getnameinfo\<close>
  fails. \<open>len\<close> is the count that \<open>%n\<close> stores; a negative width for \<open>%*s\<close> pads on
  the other side, with as many spaces.
\<close>

definition report_ep :: "world \<Rightarrow> endpoint \<Rightarrow> error + string" where
  "report_ep w ep =
     (case getnameinfo w (addr ep) of
        None \<Rightarrow> Inr []
      | Some h \<Rightarrow>
          (case read_samples ep of
             Inl e \<Rightarrow> Inl e
           | Inr vs \<Rightarrow>
               (let len = 1 + int (length h) in
                Inr ('' '' @ h @ replicate (nat \<bar>42 - len\<bar>) (CHR '' '')
                     @ concat (map report_value vs) @ [CHR 0x0A]))))"

fun report_eps :: "world \<Rightarrow> endpoint list \<Rightarrow> error + string" where
  "report_eps w [] = Inr []"
| "report_eps w (ep # eps) =
     (if endpoint_valid ep then
        (case report_ep w ep of
           Inl e \<Rightarrow> Inl e
         | Inr l \<Rightarrow> (case report_eps w eps of Inl e \<Rightarrow> Inl e | Inr ls \<Rightarrow> Inr (l @ ls)))
      else Inr [])"

text \<open>\<open>first\<close> says whether \<open>tp\<close> is the head of the list (\<open>tp == targets\<close>).\<close>

fun report_tgts :: "world \<Rightarrow> bool \<Rightarrow> target list \<Rightarrow> error + string" where
  "report_tgts w first [] = Inr []"
| "report_tgts w first (tp # tps) =
     (if target_valid tp then
        (case report_eps w (endpoints tp) of
           Inl e \<Rightarrow> Inl e
         | Inr ls \<Rightarrow>
             (case report_tgts w False tps of
                Inl e \<Rightarrow> Inl e
              | Inr rest \<Rightarrow>
                  Inr ((if first then [] else [CHR 0x0A]) @ str (host tp) @ '':''
                       @ str (port tp) @ [CHR 0x0A] @ ls @ rest)))
      else Inr [])"

definition report :: "world \<Rightarrow> target list \<Rightarrow> error + string" where
  "report w targets =
     (case targets of [] \<Rightarrow> Inl AssertFailed | _ \<Rightarrow> report_tgts w True targets)"

text \<open>
  The line of one endpoint in \<open>report_sk\<close>:
  \<open>"HAPPY.0;%lu;%s;%s;%s;%s"\<close>, then \<open>";%d"\<close> for every sample, then a newline.
  \<open>%lu\<close> prints the \<open>time_t\<close> as an unsigned 64-bit number.
\<close>

definition report_sk_ep :: "world \<Rightarrow> target \<Rightarrow> endpoint \<Rightarrow> error + string" where
  "report_sk_ep w tp ep =
     (case getnameinfo w (addr ep) of
        None \<Rightarrow> Inr []
      | Some h \<Rightarrow>
          (case read_samples ep of
             Inl e \<Rightarrow> Inl e
           | Inr vs \<Rightarrow>
               Inr (''HAPPY.0;'' @ dec (nat (time_now w mod 2 ^ 64)) @ '';''
                    @ (if cnt ep \<noteq> 0 then ''OK'' else ''FAIL'') @ '';''
                    @ str (host tp) @ '';'' @ str (port tp) @ '';'' @ h
                    @ concat (map (\<lambda>v. '';'' @ show_int v) vs) @ [CHR 0x0A])))"

fun report_sk_eps :: "world \<Rightarrow> target \<Rightarrow> endpoint list \<Rightarrow> error + string" where
  "report_sk_eps w tp [] = Inr []"
| "report_sk_eps w tp (ep # eps) =
     (if endpoint_valid ep then
        (case report_sk_ep w tp ep of
           Inl e \<Rightarrow> Inl e
         | Inr l \<Rightarrow>
             (case report_sk_eps w tp eps of Inl e \<Rightarrow> Inl e | Inr ls \<Rightarrow> Inr (l @ ls)))
      else Inr [])"

fun report_sk_tgts :: "world \<Rightarrow> target list \<Rightarrow> error + string" where
  "report_sk_tgts w [] = Inr []"
| "report_sk_tgts w (tp # tps) =
     (if target_valid tp then
        (case report_sk_eps w tp (endpoints tp) of
           Inl e \<Rightarrow> Inl e
         | Inr ls \<Rightarrow>
             (case report_sk_tgts w tps of Inl e \<Rightarrow> Inl e | Inr rest \<Rightarrow> Inr (ls @ rest)))
      else Inr [])"

definition report_sk :: "world \<Rightarrow> target list \<Rightarrow> error + string" where
  "report_sk w targets =
     (case targets of [] \<Rightarrow> Inl AssertFailed | _ \<Rightarrow> report_sk_tgts w targets)"

subsection \<open>import\<close>

text \<open>\<open>for (j = 0; ports[j]; j++) append(expand(host, ports[j]));\<close>\<close>

definition expand_ports ::
  "world \<Rightarrow> config \<Rightarrow> string \<Rightarrow> string list \<Rightarrow> target list \<Rightarrow> target list"
where
  "expand_ports w cfg h ports targets =
     foldl (\<lambda>ts p. append_target ts (expand w cfg h p)) targets ports"

fun import_lines ::
  "world \<Rightarrow> config \<Rightarrow> string list \<Rightarrow> string list \<Rightarrow> target list \<Rightarrow> error + target list"
where
  "import_lines w cfg ports [] targets = Inr targets"
| "import_lines w cfg ports (line # lines) targets =
     (case trim line of
        Inl e \<Rightarrow> Inl e
      | Inr h \<Rightarrow>
          import_lines w cfg ports lines
            (if h \<noteq> [] then expand_ports w cfg h ports targets else targets))"

definition import_file ::
  "world \<Rightarrow> config \<Rightarrow> string \<Rightarrow> string list \<Rightarrow> target list \<Rightarrow> error + target list"
where
  "import_file w cfg filename ports targets =
     (case files w filename of
        None \<Rightarrow> Inl ExitFailure
      | Some (lines, read_error) \<Rightarrow>
          (case import_lines w cfg ports lines targets of
             Inl e \<Rightarrow> Inl e
           | Inr targets1 \<Rightarrow> if read_error then Inl ExitFailure else Inr targets1))"

subsection \<open>main\<close>

text \<open>
  \<open>strtol(nptr, &endptr, 10)\<close> as the C standard describes it, for a 64-bit \<open>long\<close>:
  white space, an optional sign, decimal digits; the value and the rest of the string.
  With no digits the value is 0 and \<open>endptr\<close> is \<open>nptr\<close>; a value out of range is
  \<open>LONG_MAX\<close> or \<open>LONG_MIN\<close>.
\<close>

definition isdigit :: "char \<Rightarrow> bool" where
  "isdigit c = (c \<in> set ''0123456789'')"

definition digit_value :: "char \<Rightarrow> int" where
  "digit_value c = of_char c - 48"

fun strtol_digits :: "int \<Rightarrow> string \<Rightarrow> int \<times> string" where
  "strtol_digits acc [] = (acc, [])"
| "strtol_digits acc (c # cs) =
     (if isdigit c then strtol_digits (acc * 10 + digit_value c) cs else (acc, c # cs))"

definition strtol :: "string \<Rightarrow> int \<times> string" where
  "strtol nptr =
     (let s1 = dropWhile isspace nptr;
          neg = (s1 \<noteq> [] \<and> hd s1 = CHR ''-'');
          s2 = (if s1 \<noteq> [] \<and> (hd s1 = CHR ''-'' \<or> hd s1 = CHR ''+'') then tl s1 else s1)
      in if s2 = [] \<or> \<not> isdigit (hd s2) then (0, nptr)
         else
           (let (v, rest) = strtol_digits 0 s2;
                r = (if neg then - v else v)
            in (max (- (2 ^ 63)) (min (2 ^ 63 - 1) r), rest)))"

text \<open>
  \<open>int num = strtol(optarg, &endptr, 10);\<close> The \<open>long\<close> is converted to a 32-bit
  \<open>int\<close>; the second component says whether \<open>*endptr == '\0'\<close>.
\<close>

definition option_num :: "string \<Rightarrow> int \<times> bool" where
  "option_num optarg =
     (let (v, rest) = strtol optarg in (sint (word_of_int v :: 32 word), rest = []))"

text \<open>
  The variables of \<open>main\<close> and the global list while the options are read.
  \<open>usr_ports\<close> is \<open>None\<close> until the first \<open>-p\<close>.
\<close>

record main_state =
  cfg :: config
  targets :: "target list"
  usr_ports :: "string list option"

definition ports :: "main_state \<Rightarrow> string list" where
  "ports st = (case usr_ports st of None \<Rightarrow> [''80''] | Some ps \<Rightarrow> ps)"

text \<open>
  The body of the \<open>switch\<close> for the option character \<open>c\<close> with argument \<open>optarg\<close>,
  as \<open>getopt\<close> returns them for \<open>"d:p:q:f:hmst:"\<close>.
\<close>

definition handle_option :: "world \<Rightarrow> main_state \<Rightarrow> char \<times> string \<Rightarrow> error + main_state" where
  "handle_option w st opt =
     (let c = fst opt; optarg = snd opt in
      if c = CHR ''d'' then
        (let (num, at_end) = option_num optarg in
         if num \<ge> 0 \<and> at_end then Inr (st\<lparr>cfg := (cfg st)\<lparr>delay := num\<rparr>\<rparr>)
         else Inl ExitFailure)
      else if c = CHR ''p'' then
        Inr (st\<lparr>usr_ports := Some ((case usr_ports st of None \<Rightarrow> [] | Some ps \<Rightarrow> ps)
                                     @ [optarg])\<rparr>)
      else if c = CHR ''q'' then
        (let (num, at_end) = option_num optarg in
         if num > 0 \<and> at_end then Inr (st\<lparr>cfg := (cfg st)\<lparr>nqueries := num\<rparr>\<rparr>)
         else Inl ExitFailure)
      else if c = CHR ''f'' then
        (case import_file w (cfg st) optarg (ports st) (targets st) of
           Inl e \<Rightarrow> Inl e
         | Inr ts \<Rightarrow> Inr (st\<lparr>targets := ts\<rparr>))
      else if c = CHR ''m'' then Inr (st\<lparr>cfg := (cfg st)\<lparr>skmode := True\<rparr>\<rparr>)
      else if c = CHR ''s'' then Inr (st\<lparr>cfg := (cfg st)\<lparr>smode := True\<rparr>\<rparr>)
      else if c = CHR ''t'' then
        (let (num, at_end) = option_num optarg in
         if num > 0 \<and> at_end then Inr (st\<lparr>cfg := (cfg st)\<lparr>timeout := num\<rparr>\<rparr>)
         else Inl ExitFailure)
      else Inl ExitFailure)"

fun handle_options ::
  "world \<Rightarrow> main_state \<Rightarrow> (char \<times> string) list \<Rightarrow> error + main_state"
where
  "handle_options w st [] = Inr st"
| "handle_options w st (opt # opts) =
     (case handle_option w st opt of
        Inl e \<Rightarrow> Inl e
      | Inr st1 \<Rightarrow> handle_options w st1 opts)"

text \<open>The initial values of the static variables.\<close>

definition initial_state :: main_state where
  "initial_state =
     \<lparr>cfg = \<lparr>smode = False, skmode = False, nqueries = 3, timeout = 2000, delay = 25\<rparr>,
      targets = [], usr_ports = None\<rparr>"

text \<open>
  One round of \<open>main\<close>'s loop takes the results for \<open>prepare\<close> and for \<open>collect\<close>.
\<close>

record round =
  visits :: "visit list"
  waits :: "wait list"

text \<open>\<open>for (i = 0; i < nqueries; i++) { prepare(targets); collect(targets); }\<close>\<close>

fun rounds :: "config \<Rightarrow> nat \<Rightarrow> target list \<Rightarrow> round list \<Rightarrow> error + target list" where
  "rounds c 0 ts rs = Inr ts"
| "rounds c (Suc n) ts [] = Inl ScriptEnd"
| "rounds c (Suc n) ts (r # rs) =
     (case prepare c ts (visits r) of
        Inl e \<Rightarrow> Inl e
      | Inr ts1 \<Rightarrow>
          (case collect c ts1 (waits r) of
             Inl e \<Rightarrow> Inl e
           | Inr ts2 \<Rightarrow> rounds c n ts2 rs))"

text \<open>
  \<open>main\<close>: \<open>opts\<close> are the options in the order in which \<open>getopt\<close> returns them,
  \<open>hosts\<close> the arguments left after them. The result is what is written to \<open>stdout\<close>
  when \<open>main\<close> returns \<open>EXIT_SUCCESS\<close>.
\<close>

definition main ::
  "world \<Rightarrow> (char \<times> string) list \<Rightarrow> string list \<Rightarrow> round list \<Rightarrow> error + string"
where
  "main w opts hosts rs =
     (case handle_options w initial_state opts of
        Inl e \<Rightarrow> Inl e
      | Inr st \<Rightarrow>
          (let ts = foldl (\<lambda>ts h. expand_ports w (cfg st) h (ports st) ts) (targets st) hosts
           in if ts \<noteq> [] then
                (case rounds (cfg st) (nat (nqueries (cfg st))) ts rs of
                   Inl e \<Rightarrow> Inl e
                 | Inr ts1 \<Rightarrow>
                     (case (if smode (cfg st) then sort_targets w ts1 else Inr ts1) of
                        Inl e \<Rightarrow> Inl e
                      | Inr ts2 \<Rightarrow>
                          if skmode (cfg st) then report_sk w ts2 else report w ts2))
              else Inr []))"

section \<open>The vocabulary of the properties\<close>

text \<open>A string without the white space at its two ends.\<close>

definition strip :: "string \<Rightarrow> string" where
  "strip s = dropWhile isspace (rev (dropWhile isspace (rev s)))"

text \<open>The samples recorded so far: the first \<open>idx\<close> slots of the buffer.\<close>

definition samples :: "endpoint \<Rightarrow> int list" where
  "samples ep = take (unat (idx ep)) (values ep)"

fun count_nonneg :: "int list \<Rightarrow> nat" where
  "count_nonneg [] = 0"
| "count_nonneg (v # vs) = (if 0 \<le> v then Suc (count_nonneg vs) else count_nonneg vs)"

text \<open>
  The counters of an endpoint: \<open>tot\<close> counts the successes, \<open>cnt\<close> the attempts that
  ended through \<open>select\<close>, \<open>idx\<close> the samples; the buffer has room for the samples
  and fewer than \<open>2^32\<close> slots (\<open>nqueries\<close> is an \<open>int\<close>).
\<close>

definition counters_ok :: "endpoint \<Rightarrow> bool" where
  "counters_ok ep =
     (tot ep \<le> cnt ep \<and> cnt ep \<le> idx ep \<and> unat (idx ep) \<le> length (values ep)
      \<and> length (values ep) < 2 ^ 32)"

definition signs_ok :: "endpoint \<Rightarrow> bool" where
  "signs_ok ep = (count_nonneg (samples ep) = unat (tot ep))"

text \<open>An elapsed time between 1 and \<open>2^31 - 1\<close> microseconds.\<close>

definition us_in_window :: "32 word \<Rightarrow> bool" where
  "us_in_window us = (0 < us \<and> us < 2 ^ 31)"

definition all_eps :: "(endpoint \<Rightarrow> bool) \<Rightarrow> target list \<Rightarrow> bool" where
  "all_eps P ts = (\<forall>tp \<in> set ts. \<forall>ep \<in> set (endpoints tp). P ep)"

text \<open>The three ways in which \<open>update\<close> finalizes an attempt.\<close>

definition timed_out :: "endpoint \<Rightarrow> 32 word \<Rightarrow> endpoint" where
  "timed_out ep us =
     ep\<lparr>values := (values ep)[unat (idx ep) := sint (- us)], idx := idx ep + 1, socket := 0\<rparr>"

definition succeeded :: "endpoint \<Rightarrow> 32 word \<Rightarrow> endpoint" where
  "succeeded ep us =
     ep\<lparr>values := (values ep)[unat (idx ep) := sint us], sum_ep := sum_ep ep + us,
        tot := tot ep + 1, cnt := cnt ep + 1, idx := idx ep + 1, socket := 0\<rparr>"

definition failed :: "endpoint \<Rightarrow> 32 word \<Rightarrow> endpoint" where
  "failed ep us =
     ep\<lparr>values := (values ep)[unat (idx ep) := sint (- us)], cnt := cnt ep + 1,
        idx := idx ep + 1, socket := 0\<rparr>"

text \<open>Concrete inputs for the examples.\<close>

definition ai0 :: addrinfo where
  "ai0 = \<lparr>ai_family = 2, ai_socktype = 1, ai_protocol = 6, ai_addr = ''A'', ai_addrlen = 16\<rparr>"

definition ep_pending :: endpoint where
  "ep_pending = (new_endpoint 3 ai0)\<lparr>socket := 3, tvs := \<lparr>tv_sec = 100, tv_usec = 0\<rparr>\<rparr>"

definition tgt_of :: "endpoint list \<Rightarrow> target" where
  "tgt_of eps =
     \<lparr>host = Some ''localhost'', port = Some ''80'', num_endpoints = length eps,
      endpoints = eps\<rparr>"

definition default_cfg :: config where
  "default_cfg = cfg initial_state"

definition gso_none :: "int \<Rightarrow> int option" where
  "gso_none fd = None"

text \<open>The fields of a line of the machine-readable report, separated by semicolons.\<close>

fun fields :: "string \<Rightarrow> string list" where
  "fields [] = [[]]"
| "fields (c # cs) =
     (if c = CHR '';'' then [] # fields cs
      else (case fields cs of [] \<Rightarrow> [[c]] | f # fs \<Rightarrow> (c # f) # fs))"

definition gso_refused :: "int \<Rightarrow> int option" where
  "gso_refused fd = Some 111"

definition ep_refused :: endpoint where
  "ep_refused = ep_pending\<lparr>values := [- 1234, 0, 0], cnt := 1, idx := 1, socket := 0\<rparr>"

definition resolver0 :: "string \<Rightarrow> string \<Rightarrow> addrinfo list option" where
  "resolver0 h p = (if h = ''localhost'' then Some [ai0] else None)"

definition files0 :: "string \<Rightarrow> (string list \<times> bool) option" where
  "files0 f = (if f = ''hosts'' then Some ([''localhost'' @ [CHR 0x0A]], False) else None)"

definition numeric0 :: "string \<Rightarrow> string option" where
  "numeric0 a = Some ''127.0.0.1''"

text \<open>
  An insertion sort driven by a comparison function, as one \<open>qsort\<close> that the
  examples run.
\<close>

fun insert_by :: "('a \<Rightarrow> 'a \<Rightarrow> int) \<Rightarrow> 'a \<Rightarrow> 'a list \<Rightarrow> 'a list" where
  "insert_by c x [] = [x]"
| "insert_by c x (y # ys) = (if c x y \<le> 0 then x # y # ys else y # insert_by c x ys)"

fun isort_by :: "('a \<Rightarrow> 'a \<Rightarrow> int) \<Rightarrow> 'a list \<Rightarrow> 'a list" where
  "isort_by c [] = []"
| "isort_by c (x # xs) = insert_by c x (isort_by c xs)"

definition world0 :: world where
  "world0 = \<lparr>getaddrinfo = resolver0, files = files0, getnameinfo = numeric0,
             time_now = 1700000000, qsort = isort_by\<rparr>"

text \<open>The samples of all endpoints, in order.\<close>

definition all_samples :: "target list \<Rightarrow> int list list" where
  "all_samples ts = map samples (concat (map endpoints ts))"

text \<open>More inputs for the examples; times are microseconds after 1700000000 s.\<close>

definition ai6 :: addrinfo where
  "ai6 = \<lparr>ai_family = 10, ai_socktype = 1, ai_protocol = 6, ai_addr = ''B'', ai_addrlen = 28\<rparr>"

definition resolver1 :: "string \<Rightarrow> string \<Rightarrow> addrinfo list option" where
  "resolver1 h p = (if h = ''dual'' then Some [ai6, ai0] else None)"

definition world1 :: world where
  "world1 = world0\<lparr>getaddrinfo := resolver1\<rparr>"

definition sel_none :: "int \<Rightarrow> int list \<Rightarrow> timeval option \<Rightarrow> int list option" where
  "sel_none nfds fdset to = Some []"

definition sel_3 :: "int \<Rightarrow> int list \<Rightarrow> timeval option \<Rightarrow> int list option" where
  "sel_3 nfds fdset to = Some [3]"

definition gso_ok :: "int \<Rightarrow> int option" where
  "gso_ok fd = Some 0"

definition at_us :: "int \<Rightarrow> timeval" where
  "at_us u = \<lparr>tv_sec = 1700000000, tv_usec = u\<rparr>"

text \<open>A nap of two passes: a \<open>select\<close> that waits, then a clock reading past the delay.\<close>

definition nap_from :: "int \<Rightarrow> nap_pass list" where
  "nap_from u =
     [\<lparr>sel = sel_none, upd_now = at_us (u + 25100), upd_gso = gso_none, now = at_us u\<rparr>,
      \<lparr>sel = sel_none, upd_now = at_us (u + 25200), upd_gso = gso_none, now = at_us (u + 25200)\<rparr>]"

text \<open>
  A round for two endpoints: \<open>socket\<close> fails with \<open>EAFNOSUPPORT\<close> for the first, the
  second connects after 1234 microseconds.
\<close>

definition round_skip :: round where
  "round_skip =
     \<lparr>visits =
        [\<lparr>nap_start = at_us 0, nap_passes = nap_from 0, sock = (- 1, EAFNOSUPPORT),
          setfl_failed = False, conn = ConnectFailed, started = at_us 25200\<rparr>,
         \<lparr>nap_start = at_us 25300, nap_passes = nap_from 25300, sock = (3, EOTHER),
          setfl_failed = False, conn = EINPROGRESS, started = at_us 50600\<rparr>],
      waits = [\<lparr>sel = sel_3, upd_now = at_us 51834, upd_gso = gso_ok\<rparr>]\<rparr>"

text \<open>A round for one endpoint that connects after 1234 microseconds.\<close>

definition ok_round :: round where
  "ok_round =
     \<lparr>visits = [\<lparr>nap_start = at_us 0, nap_passes = nap_from 0, sock = (3, EOTHER),
                 setfl_failed = False, conn = EINPROGRESS, started = at_us 25300\<rparr>],
      waits = [\<lparr>sel = sel_3, upd_now = at_us 26534, upd_gso = gso_ok\<rparr>]\<rparr>"









text \<open>A \<open>timeval\<close> in microseconds, and what \<open>gettimeofday\<close> guarantees for \<open>tv_usec\<close>.\<close>

definition usec_of :: "timeval \<Rightarrow> int" where
  "usec_of tv = tv_sec tv * 1000000 + tv_usec tv"

definition normal :: "timeval \<Rightarrow> bool" where
  "normal tv = (0 \<le> tv_usec tv \<and> tv_usec tv < 1000000)"

text \<open>
  The attempts of an endpoint that are finished or pending, and a buffer with at least
  \<open>n\<close> slots.
\<close>

definition attempts :: "endpoint \<Rightarrow> nat" where
  "attempts ep = unat (idx ep) + (if socket ep \<noteq> 0 then 1 else 0)"

definition room :: "nat \<Rightarrow> endpoint \<Rightarrow> bool" where
  "room n ep = (n \<le> length (values ep) \<and> length (values ep) < 2 ^ 32)"

text \<open>
  Inside round \<open>r\<close> (counted from 0), when \<open>prepare\<close> is about to handle the endpoint
  \<open>ei\<close> of the target \<open>ti\<close>: the endpoints before that position may have one attempt
  more than the others.
\<close>

definition before :: "nat \<Rightarrow> nat \<Rightarrow> nat \<Rightarrow> nat \<Rightarrow> bool" where
  "before t e ti ei = (t < ti \<or> (t = ti \<and> e < ei))"

definition pass_inv :: "nat \<Rightarrow> nat \<Rightarrow> nat \<Rightarrow> nat \<Rightarrow> target list \<Rightarrow> bool" where
  "pass_inv n r ti ei ts =
     (Suc r \<le> n \<and>
      (\<forall>t < length ts. \<forall>e < length (endpoints (ts ! t)).
         room n (endpoints (ts ! t) ! e)
         \<and> attempts (endpoints (ts ! t) ! e) \<le> (if before t e ti ei then Suc r else r)))"

text \<open>Two states of the target list with the same numbers of targets and endpoints.\<close>

definition same_shape :: "target list \<Rightarrow> target list \<Rightarrow> bool" where
  "same_shape ts ts' =
     (length ts' = length ts
      \<and> (\<forall>t < length ts. length (endpoints (ts' ! t)) = length (endpoints (ts ! t))))"

text \<open>What the body of \<open>prepare\<close>'s loop makes of an endpoint after the nap.\<close>

definition issued :: "visit \<Rightarrow> endpoint \<Rightarrow> endpoint" where
  "issued v ep =
     (if fst (sock v) < 0 then
        (case snd (sock v) of
           EAFNOSUPPORT \<Rightarrow> ep\<lparr>socket := fst (sock v)\<rparr>
         | EPROTONOSUPPORT \<Rightarrow> ep\<lparr>socket := fst (sock v)\<rparr>
         | EOTHER \<Rightarrow> ep\<lparr>socket := 0\<rparr>)
      else if setfl_failed v then ep\<lparr>socket := 0\<rparr>
      else if conn v = ConnectFailed then ep\<lparr>socket := 0\<rparr>
      else ep\<lparr>socket := fst (sock v), tvs := started v\<rparr>)"

text \<open>
  The endpoints in the order in which \<open>prepare\<close> and \<open>update\<close> go through them, and
  targets as \<open>expand\<close> builds them from what \<open>getaddrinfo\<close> returns: host and port
  are set, there is at least one endpoint, and every endpoint has an address.
\<close>

definition flat :: "target list \<Rightarrow> endpoint list" where
  "flat ts = concat (map endpoints ts)"

definition expanded :: "target list \<Rightarrow> bool" where
  "expanded ts =
     (\<forall>tp \<in> set ts. target_valid tp \<and> num_endpoints tp = length (endpoints tp)
        \<and> endpoints tp \<noteq> [] \<and> (\<forall>ep \<in> set (endpoints tp). endpoint_valid ep))"

text \<open>
  A pass through the loop body of \<open>prepare\<close> issues a connect when \<open>socket\<close>,
  \<open>fcntl\<close> and \<open>connect\<close> succeed (\<open>EINPROGRESS\<close> included); it then stores the
  time in \<open>ep->tvs\<close>.
\<close>

definition issues :: "visit \<Rightarrow> bool" where
  "issues v = (0 \<le> fst (sock v) \<and> \<not> setfl_failed v \<and> conn v \<noteq> ConnectFailed)"

text \<open>
  The clock readings of a pass through the loop body, in the order in which the program
  takes them: \<open>dts\<close>; for every pass of the nap \<open>dtn\<close> and then the reading of
  \<open>update\<close>; \<open>ep->tvs\<close> when a connect is issued. The clock is in order when no
  reading is before an earlier one and every \<open>tv_usec\<close> is in its range.
\<close>

definition readings :: "visit \<Rightarrow> timeval list" where
  "readings v =
     nap_start v # concat (map (\<lambda>p. [now p, upd_now p]) (nap_passes v))
       @ (if issues v then [started v] else [])"

definition clock_ok :: "visit list \<Rightarrow> bool" where
  "clock_ok vs =
     ((\<forall>tv \<in> set (concat (map readings vs)). normal tv)
      \<and> sorted (map usec_of (concat (map readings vs))))"

text \<open>
  What \<open>select\<close> does with the descriptor \<open>s\<close> in a pass of the nap: it reports
  \<open>s\<close> whenever \<open>s\<close> is in the set that it is given and below \<open>nfds\<close>, or it never
  reports \<open>s\<close>. \<open>in_time\<close>: at the reading of \<open>update\<close> in this pass, the connect
  started at \<open>t0\<close> has not reached the timeout.
\<close>

definition reported :: "int \<Rightarrow> nap_pass \<Rightarrow> bool" where
  "reported s p =
     (\<forall>n fds to. s \<in> set fds \<and> s < n \<longrightarrow> (\<exists>ready. sel p n fds to = Some ready \<and> s \<in> set ready))"

definition unreported :: "int \<Rightarrow> nap_pass \<Rightarrow> bool" where
  "unreported s p = (\<forall>n fds to ready. sel p n fds to = Some ready \<longrightarrow> s \<notin> set ready)"

definition in_time :: "config \<Rightarrow> timeval \<Rightarrow> nap_pass \<Rightarrow> bool" where
  "in_time c t0 p = (elapsed_us (upd_now p) t0 < word_of_int (timeout c * 1000))"

text \<open>An attempt finalized through \<open>select\<close>, with the value \<open>err\<close> of \<open>SO_ERROR\<close>.\<close>

definition finalized :: "endpoint \<Rightarrow> 32 word \<Rightarrow> int \<Rightarrow> endpoint" where
  "finalized ep us err = (if err = 0 then succeeded ep us else failed ep us)"

text \<open>
  The connect that the pass \<open>h\<close> through the loop body issues completes during the nap
  of a later pass \<open>m\<close>: \<open>select\<close> reports its socket for the first time in the pass
  \<open>k\<close> of that nap, while the nap is still running and before the timeout, and
  \<open>getsockopt\<close> then stores \<open>err\<close>.
\<close>

definition completes :: "config \<Rightarrow> visit list \<Rightarrow> nat \<Rightarrow> nat \<Rightarrow> nat \<Rightarrow> int \<Rightarrow> bool" where
  "completes c vs h m k err =
     (let s = fst (sock (vs ! h)); t0 = started (vs ! h); ps = nap_passes (vs ! m) in
      h < m \<and> issues (vs ! h) \<and> s \<noteq> 0 \<and> k < length ps
      \<and> (\<forall>l. h < l \<and> l < m \<longrightarrow>
            (\<forall>p \<in> set (nap_passes (vs ! l)). unreported s p \<and> in_time c t0 p))
      \<and> (\<forall>j<k. unreported s (ps ! j) \<and> in_time c t0 (ps ! j))
      \<and> (\<forall>j\<le>k. usec_of (now (ps ! j)) - usec_of (nap_start (vs ! m)) \<le> delay c * 1000)
      \<and> reported s (ps ! k) \<and> in_time c t0 (ps ! k) \<and> upd_gso (ps ! k) s = Some err)"

text \<open>
  For the proofs: the positions of the endpoints in the order of \<open>flat\<close>, the endpoint
  at a position, the loop body of \<open>prepare\<close> run over a list of positions, and two
  states of the target list that differ only in what \<open>update\<close> and \<open>prepare\<close> write.
\<close>

definition positions :: "target list \<Rightarrow> (nat \<times> nat) list" where
  "positions ts =
     concat (map (\<lambda>t. map (Pair t) [0..<length (endpoints (ts ! t))]) [0..<length ts])"

definition ep_at :: "target list \<Rightarrow> nat \<times> nat \<Rightarrow> endpoint" where
  "ep_at ts q = endpoints (ts ! fst q) ! snd q"

fun steps ::
  "config \<Rightarrow> (nat \<times> nat) list \<Rightarrow> target list \<Rightarrow> visit list \<Rightarrow> error + target list \<times> visit list"
where
  "steps c [] ts vs = Inr (ts, vs)"
| "steps c (q # qs) ts vs =
     (case vs of
        [] \<Rightarrow> Inl ScriptEnd
      | v # vs1 \<Rightarrow>
          (case prepare_ep c (fst q) (snd q) ts v of
             Inl e \<Rightarrow> Inl e
           | Inr ts1 \<Rightarrow> steps c qs ts1 vs1))"

definition same_frame :: "target list \<Rightarrow> target list \<Rightarrow> bool" where
  "same_frame ts ts' =
     list_all2 (\<lambda>tp tp'. host tp' = host tp \<and> port tp' = port tp
                  \<and> num_endpoints tp' = num_endpoints tp
                  \<and> list_all2 (\<lambda>ep ep'. addrlen ep' = addrlen ep) (endpoints tp) (endpoints tp'))
       ts ts'"

text \<open>
  A \<open>select\<close> that reports the descriptors of \<open>done\<close> that are in its set, and a run
  of \<open>prepare\<close> over two endpoints with the default delay of 25 ms: the first connect
  is issued at 25200; the nap for the second starts at 25300, its first pass finds the
  first connect complete at 26434, its second pass reads 50400 and ends the nap; the
  second connect is issued at 50500.
\<close>

definition sel_ready :: "int list \<Rightarrow> int \<Rightarrow> int list \<Rightarrow> timeval option \<Rightarrow> int list option" where
  "sel_ready done n fds to = Some (filter (\<lambda>fd. fd \<in> set done \<and> fd < n) fds)"

definition two_eps :: "target list" where
  "two_eps = [tgt_of [new_endpoint 3 ai0, new_endpoint 3 ai0]]"

definition two_visits :: "visit list" where
  "two_visits =
     [\<lparr>nap_start = at_us 0,
       nap_passes =
         [\<lparr>sel = sel_ready [], upd_now = at_us 25050, upd_gso = gso_none, now = at_us 0\<rparr>,
          \<lparr>sel = sel_ready [], upd_now = at_us 25150, upd_gso = gso_none, now = at_us 25100\<rparr>],
       sock = (3, EOTHER), setfl_failed = False, conn = EINPROGRESS, started = at_us 25200\<rparr>,
      \<lparr>nap_start = at_us 25300,
       nap_passes =
         [\<lparr>sel = sel_ready [3], upd_now = at_us 26434, upd_gso = gso_ok, now = at_us 25300\<rparr>,
          \<lparr>sel = sel_ready [], upd_now = at_us 50450, upd_gso = gso_none, now = at_us 50400\<rparr>],
       sock = (4, EOTHER), setfl_failed = False, conn = EINPROGRESS, started = at_us 50500\<rparr>]"

definition two_eps_after :: "target list" where
  "two_eps_after =
     [tgt_of [(new_endpoint 3 ai0)\<lparr>tvs := at_us 25200, values := [1234, 0, 0], sum_ep := 1234,
                                    tot := 1, cnt := 1, idx := 1\<rparr>,
              (new_endpoint 3 ai0)\<lparr>socket := 4, tvs := at_us 50500\<rparr>]]"

text \<open>A file of host names with an empty line after the first name.\<close>

definition files_blank :: "string \<Rightarrow> (string list \<times> bool) option" where
  "files_blank f =
     (if f = ''hosts'' then Some ([''localhost'' @ [CHR 0x0A], [CHR 0x0A]], False) else None)"

section \<open>Properties\<close>

subsection \<open>trim\<close>

lemma isspace_NUL [simp]: "\<not> isspace NUL"
  by (simp add: isspace_def NUL_def)

lemma cstring_append_NUL: "NUL \<notin> set s \<Longrightarrow> cstring (s @ NUL # r) = s"
  by (induction s) (auto simp: cstring_def)

lemma trim_tail_spaces:
  "\<forall>c \<in> set s. isspace c \<Longrightarrow> trim_tail (s @ r) (length s) = Inl OutOfBounds"
proof (induction s arbitrary: r rule: rev_induct)
  case Nil
  then show ?case by simp
next
  case (snoc x xs)
  have "trim_tail ((xs @ [x]) @ r) (length (xs @ [x])) = trim_tail (xs @ NUL # r) (length xs)"
    using snoc.prems by (simp add: nth_append)
  then show ?case using snoc by simp
qed

lemma trim_tail_result:
  "\<not> (\<forall>c \<in> set s. isspace c) \<Longrightarrow>
   \<exists>r'. trim_tail (s @ NUL # r) (length s) =
        Inr (rev (dropWhile isspace (rev s)) @ NUL # r',
             length (rev (dropWhile isspace (rev s))))"
proof (induction s arbitrary: r rule: rev_induct)
  case Nil
  then show ?case by simp
next
  case (snoc x xs)
  show ?case
  proof (cases "isspace x")
    case False
    then have "trim_tail ((xs @ [x]) @ NUL # r) (length (xs @ [x]))
                 = Inr ((xs @ [x]) @ NUL # r, length (xs @ [x]))"
      by (simp add: nth_append)
    then show ?thesis using False by simp
  next
    case True
    then have ns: "\<not> (\<forall>c \<in> set xs. isspace c)" using snoc.prems by auto
    have e: "trim_tail ((xs @ [x]) @ NUL # r) (length (xs @ [x]))
               = trim_tail (xs @ NUL # NUL # r) (length xs)"
      using True by (simp add: nth_append)
    from snoc.IH [OF ns, of "NUL # r"] show ?thesis using e True by simp
  qed
qed

lemma trim_head_result:
  "NUL \<notin> set s \<Longrightarrow> \<not> (\<forall>c \<in> set s. isspace c) \<Longrightarrow> length s \<le> l \<Longrightarrow>
   trim_head (s @ NUL # r) l = dropWhile isspace s @ NUL # r"
proof (induction s arbitrary: l)
  case Nil
  then show ?case by simp
next
  case (Cons c cs)
  then show ?case by (cases l) auto
qed

text \<open>
  The exact condition: \<open>trim\<close> returns, and then with the stripped string, exactly
  when some character of its argument is not white space; otherwise the first loop
  reads \<open>p[-1]\<close>.
\<close>

lemma trim_exact:
  assumes "NUL \<notin> set s"
  shows "trim s = (if \<forall>c \<in> set s. isspace c then Inl OutOfBounds else Inr (strip s))"
proof -
  have l: "strlen (s @ [NUL]) = length s"
    using assms by (simp add: strlen_def cstring_append_NUL)
  show ?thesis
  proof (cases "\<forall>c \<in> set s. isspace c")
    case True
    then show ?thesis using l trim_tail_spaces [of s "[NUL]"] by (simp add: trim_def)
  next
    case False
    let ?t = "rev (dropWhile isspace (rev s))"
    from trim_tail_result [OF False, of "[]"] obtain r' where
      t: "trim_tail (s @ [NUL]) (length s) = Inr (?t @ NUL # r', length ?t)"
      by blast
    have nt: "NUL \<notin> set ?t" using assms by (auto dest: set_dropWhileD)
    have "\<not> (\<forall>c \<in> set ?t. isspace c)"
    proof -
      from False have "dropWhile isspace (rev s) \<noteq> []" by (simp add: dropWhile_eq_Nil_conv)
      then have "\<not> isspace (hd (dropWhile isspace (rev s)))" by (rule hd_dropWhile)
      moreover have "hd (dropWhile isspace (rev s)) \<in> set (dropWhile isspace (rev s))"
        using \<open>dropWhile isspace (rev s) \<noteq> []\<close> by simp
      ultimately show ?thesis by auto
    qed
    from trim_head_result [OF nt this, of "length ?t" r']
    have "trim_head (?t @ NUL # r') (length ?t) = dropWhile isspace ?t @ NUL # r'"
      by simp
    moreover have "NUL \<notin> set (dropWhile isspace ?t)" using nt by (auto dest: set_dropWhileD)
    ultimately have "cstring (trim_head (?t @ NUL # r') (length ?t)) = dropWhile isspace ?t"
      by (simp add: cstring_append_NUL)
    then show ?thesis using False l t by (simp add: trim_def strip_def)
  qed
qed

text \<open>
  C9. \<open>trim\<close> does not strip every string that is not empty. The first loop tests
  \<open>isspace(p[l-1])\<close> before it looks at \<open>l\<close>, so that it reads \<open>p[-1]\<close>, the byte
  before the buffer, not only for the empty string but whenever it has cut the string
  down to nothing: for every string of white space only (\<open>trim_exact\<close>). \<open>fgets\<close>
  hands \<open>import\<close> an empty line as a line feed alone, and \<open>import\<close> calls \<open>trim\<close>
  on it.
\<close>

theorem blank_line_reads_before_buffer:
  "trim [CHR 0x0A] = Inl OutOfBounds \<and> trim '' '' = Inl OutOfBounds
   \<and> import_file (world0\<lparr>files := files_blank\<rparr>) default_cfg ''hosts'' [''80''] []
       = Inl OutOfBounds"
  by code_simp

subsection \<open>update\<close>



lemma unat_inc32: "unat (w :: 32 word) < n \<Longrightarrow> n < 2 ^ 32 \<Longrightarrow> unat (w + 1) = Suc (unat w)"
proof -
  assume a: "unat w < n" "n < 2 ^ 32"
  have "unat w + unat (1 :: 32 word) < 2 ^ LENGTH(32)" using a by simp
  then have "unat (w + 1) = unat w + unat (1 :: 32 word)" by (simp only: unat_add_lem)
  then show ?thesis by simp
qed

lemma count_nonneg_append: "count_nonneg (xs @ ys) = count_nonneg xs + count_nonneg ys"
  by (induction xs) auto

lemma take_Suc_update: "n < length xs \<Longrightarrow> take (Suc n) (xs[n := v]) = take n xs @ [v]"
  by (simp add: take_Suc_conv_app_nth)

lemma store_value_Inr:
  "store_value ep v = Inr ep1 \<longleftrightarrow>
     unat (idx ep) < length (values ep) \<and> ep1 = ep\<lparr>values := (values ep)[unat (idx ep) := sint v]\<rparr>"
  by (auto simp: store_value_def)

lemma update_ep_timeout:
  assumes "socket ep \<noteq> 0" "word_of_int (timeout c * 1000) \<le> elapsed_us tv (tvs ep)"
  shows "update_ep c tv gso fdset ep =
     (if unat (idx ep) < length (values ep) then Inr (timed_out ep (elapsed_us tv (tvs ep)))
      else Inl OutOfBounds)"
  using assms by (simp add: update_ep_def Let_def store_value_def timed_out_def)

lemma update_ep_cases:
  assumes "update_ep c tv gso fdset ep = Inr ep'"
  obtains
    (untouched) "ep' = ep"
  | (timeout) "socket ep \<noteq> 0" "unat (idx ep) < length (values ep)"
      "word_of_int (timeout c * 1000) \<le> elapsed_us tv (tvs ep)"
      "ep' = timed_out ep (elapsed_us tv (tvs ep))"
  | (success) "socket ep \<noteq> 0" "unat (idx ep) < length (values ep)"
      "ep' = succeeded ep (elapsed_us tv (tvs ep))" "gso (socket ep) = Some 0"
  | (failure) "socket ep \<noteq> 0" "unat (idx ep) < length (values ep)"
      "ep' = failed ep (elapsed_us tv (tvs ep))" "\<exists>e. e \<noteq> 0 \<and> gso (socket ep) = Some e"
proof -
  let ?us = "elapsed_us tv (tvs ep)"
  show ?thesis
  proof (cases "socket ep \<noteq> 0 \<and> word_of_int (timeout c * 1000) \<le> ?us")
    case True
    with assms have "unat (idx ep) < length (values ep)" "ep' = timed_out ep ?us"
      by (auto simp: update_ep_timeout split: if_splits)
    then show ?thesis using True timeout by simp
  next
    case nt: False
    show ?thesis
    proof (cases "socket ep \<noteq> 0 \<and> socket ep \<in> set fdset")
      case False
      with nt assms have "ep' = ep" by (auto simp add: update_ep_def Let_def)
      then show ?thesis using untouched by simp
    next
      case True
      with nt have u: "update_ep c tv gso fdset ep =
        (case gso (socket ep) of
           None \<Rightarrow> Inl ExitFailure
         | Some soerror \<Rightarrow>
             if soerror = 0 then
               (case store_value ep ?us of
                  Inl e \<Rightarrow> Inl e
                | Inr ep1 \<Rightarrow>
                    Inr (ep1\<lparr>sum_ep := sum_ep ep1 + ?us, tot := tot ep1 + 1,
                              cnt := cnt ep1 + 1, idx := idx ep1 + 1, socket := 0\<rparr>))
             else
               (case store_value ep (- ?us) of
                  Inl e \<Rightarrow> Inl e
                | Inr ep1 \<Rightarrow>
                    Inr (ep1\<lparr>cnt := cnt ep1 + 1, idx := idx ep1 + 1, socket := 0\<rparr>)))"
        by (simp add: update_ep_def Let_def)
      from u assms obtain soerror where g: "gso (socket ep) = Some soerror"
        by (cases "gso (socket ep)") auto
      show ?thesis
      proof (cases "soerror = 0")
        case True
        with u g assms obtain ep1 where "store_value ep ?us = Inr ep1"
          and "ep' = ep1\<lparr>sum_ep := sum_ep ep1 + ?us, tot := tot ep1 + 1,
                              cnt := cnt ep1 + 1, idx := idx ep1 + 1, socket := 0\<rparr>"
          by (cases "store_value ep ?us") auto
        then show ?thesis using \<open>socket ep \<noteq> 0 \<and> socket ep \<in> set fdset\<close> g True success
          by (simp add: store_value_Inr succeeded_def)
      next
        case False
        with u g assms obtain ep1 where "store_value ep (- ?us) = Inr ep1"
          and "ep' = ep1\<lparr>cnt := cnt ep1 + 1, idx := idx ep1 + 1, socket := 0\<rparr>"
          by (cases "store_value ep (- ?us)") auto
        then show ?thesis using \<open>socket ep \<noteq> 0 \<and> socket ep \<in> set fdset\<close> g False failure
          by (simp add: store_value_Inr failed_def)
      qed
    qed
  qed
qed

lemma unat_inc_idx:
  "counters_ok ep \<Longrightarrow> unat (idx ep) < length (values ep) \<Longrightarrow> unat (idx ep + 1) = Suc (unat (idx ep))"
  by (rule unat_inc32 [where n = "length (values ep)"]) (simp_all add: counters_ok_def)

lemma unat_inc_cnt:
  "counters_ok ep \<Longrightarrow> unat (idx ep) < length (values ep) \<Longrightarrow> unat (cnt ep + 1) = Suc (unat (cnt ep))"
  by (rule unat_inc32 [where n = "length (values ep)"]) (simp_all add: counters_ok_def word_le_nat_alt)

lemma unat_inc_tot:
  "counters_ok ep \<Longrightarrow> unat (idx ep) < length (values ep) \<Longrightarrow> unat (tot ep + 1) = Suc (unat (tot ep))"
  by (rule unat_inc32 [where n = "length (values ep)"]) (simp_all add: counters_ok_def word_le_nat_alt)

lemma update_ep_counters:
  assumes "update_ep c tv gso fdset ep = Inr ep'" and ok: "counters_ok ep"
  shows "counters_ok ep'"
  using assms(1)
proof (cases rule: update_ep_cases)
  case untouched
  then show ?thesis using ok by simp
next
  case timeout
  show ?thesis using ok unat_inc_idx [OF ok timeout(2)] timeout(2)
    by (simp add: timeout(4) timed_out_def counters_ok_def word_le_nat_alt)
next
  case success
  show ?thesis using ok unat_inc_idx [OF ok success(2)] unat_inc_cnt [OF ok success(2)]
      unat_inc_tot [OF ok success(2)] success(2)
    by (simp add: success(3) succeeded_def counters_ok_def word_le_nat_alt)
next
  case failure
  show ?thesis using ok unat_inc_idx [OF ok failure(2)] unat_inc_cnt [OF ok failure(2)] failure(2)
    by (simp add: failure(3) failed_def counters_ok_def word_le_nat_alt)
qed

lemma sint_window:
  assumes "us_in_window us"
  shows "0 \<le> sint us" and "sint (- us) < 0"
proof -
  define k where "k = uint us"
  have k: "0 < k" "k < 2 ^ 31"
    using assms unfolding us_in_window_def k_def
    by (simp_all add: word_less_def)
  have us: "us = word_of_int k" by (simp add: k_def)
  have p: "sint us = k"
    unfolding us using k by (simp add: sint_sbintrunc' signed_take_bit_int_eq_self)
  have "sint (word_of_int (- k) :: 32 word) = signed_take_bit (LENGTH(32) - 1) (- k)"
    by (rule sint_sbintrunc')
  also have "\<dots> = - k"
    using k by (intro signed_take_bit_int_eq_self) simp_all
  finally have n: "sint (- us) = - k" by (simp add: us)
  show "0 \<le> sint us" using p k by simp
  show "sint (- us) < 0" using n k by simp
qed

lemma update_ep_signs:
  assumes "update_ep c tv gso fdset ep = Inr ep'" and ok: "counters_ok ep"
    and s: "signs_ok ep" and w: "socket ep \<noteq> 0 \<longrightarrow> us_in_window (elapsed_us tv (tvs ep))"
  shows "signs_ok ep'"
  using assms(1)
proof (cases rule: update_ep_cases)
  case untouched
  then show ?thesis using s by simp
next
  case timeout
  have "sint (- elapsed_us tv (tvs ep)) < 0" using w timeout(1) sint_window by blast
  then show ?thesis using s unat_inc_idx [OF ok timeout(2)] timeout(2)
    by (simp add: timeout(4) timed_out_def signs_ok_def samples_def take_Suc_update count_nonneg_append)
next
  case success
  have "0 \<le> sint (elapsed_us tv (tvs ep))" using w success(1) sint_window by blast
  then show ?thesis using s unat_inc_idx [OF ok success(2)] unat_inc_tot [OF ok success(2)] success(2)
    by (simp add: success(3) succeeded_def signs_ok_def samples_def take_Suc_update count_nonneg_append)
next
  case failure
  have "sint (- elapsed_us tv (tvs ep)) < 0" using w failure(1) sint_window by blast
  then show ?thesis using s unat_inc_idx [OF ok failure(2)] failure(2)
    by (simp add: failure(3) failed_def signs_ok_def samples_def take_Suc_update count_nonneg_append)
qed


lemma update_eps_rel:
  "update_eps c tv gso fdset eps = Inr eps' \<Longrightarrow>
   list_all2 (\<lambda>ep ep'. update_ep c tv gso fdset ep = Inr ep' \<or> ep' = ep) eps eps'"
proof (induction eps arbitrary: eps')
  case Nil
  then show ?case by simp
next
  case (Cons ep eps)
  show ?case
  proof (cases "endpoint_valid ep")
    case False
    with Cons.prems have "eps' = ep # eps" by simp
    then show ?thesis by (simp add: list_all2_same)
  next
    case True
    with Cons.prems obtain ep1 eps1 where
      a: "update_ep c tv gso fdset ep = Inr ep1"
      and b: "update_eps c tv gso fdset eps = Inr eps1"
      and e: "eps' = ep1 # eps1"
      by (auto split: sum.splits)
    from Cons.IH [OF b] a e show ?thesis by auto
  qed
qed

lemma update_tgts_rel:
  "update_tgts c tv gso fdset ts = Inr ts' \<Longrightarrow>
   list_all2 (\<lambda>tp tp'. host tp' = host tp \<and> port tp' = port tp \<and> num_endpoints tp' = num_endpoints tp \<and>
      list_all2 (\<lambda>ep ep'. update_ep c tv gso fdset ep = Inr ep' \<or> ep' = ep) (endpoints tp) (endpoints tp'))
     ts ts'"
proof (induction ts arbitrary: ts')
  case Nil
  then show ?case by simp
next
  case (Cons tp tps)
  show ?case
  proof (cases "target_valid tp")
    case False
    with Cons.prems have "ts' = tp # tps" by simp
    then show ?thesis by (simp add: list_all2_same)
  next
    case True
    with Cons.prems obtain eps1 tps1 where
      a: "update_eps c tv gso fdset (endpoints tp) = Inr eps1"
      and b: "update_tgts c tv gso fdset tps = Inr tps1"
      and e: "ts' = tp\<lparr>endpoints := eps1\<rparr> # tps1"
      by (auto split: sum.splits)
    from Cons.IH [OF b] update_eps_rel [OF a] e show ?thesis by simp
  qed
qed

lemma update_rel:
  "update c ts fdset tv gso = Inr ts' \<Longrightarrow>
   list_all2 (\<lambda>tp tp'. host tp' = host tp \<and> port tp' = port tp \<and> num_endpoints tp' = num_endpoints tp \<and>
      list_all2 (\<lambda>ep ep'. update_ep c tv gso fdset ep = Inr ep' \<or> ep' = ep) (endpoints tp) (endpoints tp'))
     ts ts'"
proof -
  assume u: "update c ts fdset tv gso = Inr ts'"
  then have "update_tgts c tv gso fdset ts = Inr ts'"
    by (cases ts) (simp_all add: update_def)
  then show ?thesis by (rule update_tgts_rel)
qed

text \<open>A property that update_ep keeps holds for all endpoints after the pass.\<close>

lemma update_all_eps:
  assumes u: "update c ts fdset tv gso = Inr ts'"
    and P: "all_eps P ts"
    and step: "\<And>ep ep'. P ep \<Longrightarrow> update_ep c tv gso fdset ep = Inr ep' \<Longrightarrow> Q ep'"
    and same: "\<And>ep. P ep \<Longrightarrow> Q ep"
  shows "all_eps Q ts'"
  unfolding all_eps_def
proof (intro ballI)
  fix tp' ep' assume tp': "tp' \<in> set ts'" and ep': "ep' \<in> set (endpoints tp')"
  let ?R = "\<lambda>ep ep'. update_ep c tv gso fdset ep = Inr ep' \<or> ep' = ep"
  from tp' obtain i where i: "i < length ts'" "ts' ! i = tp'"
    by (auto simp: in_set_conv_nth)
  from update_rel [OF u] have len: "length ts = length ts'"
    by (rule list_all2_lengthD)
  define tp where "tp = ts ! i"
  have tp: "tp \<in> set ts" using i len by (simp add: tp_def)
  have r: "list_all2 ?R (endpoints tp) (endpoints tp')"
    using list_all2_nthD2 [OF update_rel [OF u] i(1)] i(2) by (simp add: tp_def)
  from ep' obtain j where j: "j < length (endpoints tp')" "endpoints tp' ! j = ep'"
    by (auto simp: in_set_conv_nth)
  define ep where "ep = endpoints tp ! j"
  have ep: "ep \<in> set (endpoints tp)"
    using j list_all2_lengthD [OF r] by (simp add: ep_def)
  have "?R ep ep'"
    using list_all2_nthD2 [OF r j(1)] j(2) by (simp add: ep_def)
  moreover have "P ep" using P tp ep by (simp add: all_eps_def)
  ultimately show "Q ep'" using step same by blast
qed


text \<open>
  C1, as amended. After every pass of \<open>update\<close> that returns, every endpoint has
  \<open>tot <= cnt <= idx <= \<close> the number of slots, when this held before the pass; the
  number of non-negative entries among the first \<open>idx\<close> samples equals \<open>tot\<close>, when
  this held before and the elapsed time of every pending attempt is between 1 and
  \<open>2^31 - 1\<close> microseconds at this pass; and finalizing an attempt as timed out stores
  the negated elapsed time as a sample and increments \<open>idx\<close>, while \<open>cnt\<close> stays as
  it is.
\<close>

theorem update_keeps_counters:
  assumes "update c ts fdset tv gso = Inr ts'" and "all_eps counters_ok ts"
  shows "all_eps counters_ok ts' \<and>
    (all_eps (\<lambda>ep. signs_ok ep \<and> (socket ep \<noteq> 0 \<longrightarrow> us_in_window (elapsed_us tv (tvs ep)))) ts
       \<longrightarrow> all_eps signs_ok ts') \<and>
    (\<forall>ep. socket ep \<noteq> 0 \<and> word_of_int (timeout c * 1000) \<le> elapsed_us tv (tvs ep)
          \<and> unat (idx ep) < length (values ep) \<longrightarrow>
       update_ep c tv gso fdset ep =
         Inr (ep\<lparr>values := (values ep)[unat (idx ep) := sint (- elapsed_us tv (tvs ep))],
                 idx := idx ep + 1, socket := 0\<rparr>))"
proof (intro conjI impI allI)
  show "all_eps counters_ok ts'"
    using assms by (rule update_all_eps) (auto intro: update_ep_counters)
next
  assume s: "all_eps (\<lambda>ep. signs_ok ep \<and> (socket ep \<noteq> 0 \<longrightarrow> us_in_window (elapsed_us tv (tvs ep)))) ts"
  let ?P = "\<lambda>ep. counters_ok ep \<and> signs_ok ep \<and> (socket ep \<noteq> 0 \<longrightarrow> us_in_window (elapsed_us tv (tvs ep)))"
  have "all_eps ?P ts" using s assms(2) by (simp add: all_eps_def)
  with assms(1) show "all_eps signs_ok ts'"
    by (rule update_all_eps) (auto intro: update_ep_signs)
next
  fix ep :: endpoint
  assume "socket ep \<noteq> 0 \<and> word_of_int (timeout c * 1000) \<le> elapsed_us tv (tvs ep)
          \<and> unat (idx ep) < length (values ep)"
  then show "update_ep c tv gso fdset ep =
         Inr (ep\<lparr>values := (values ep)[unat (idx ep) := sint (- elapsed_us tv (tvs ep))],
                 idx := idx ep + 1, socket := 0\<rparr>)"
    by (simp add: update_ep_timeout timed_out_def)
qed

text \<open>
  An attempt that is pending for two seconds with the default timeout of 2000 ms: the
  pass leaves \<open>idx = 1\<close> and \<open>cnt = 0\<close>.
\<close>

lemma timeout_pass_eval:
  "update default_cfg [tgt_of [ep_pending]] [] \<lparr>tv_sec = 102, tv_usec = 0\<rparr> gso_none
     = Inr [tgt_of [ep_pending\<lparr>values := [- 2000000, 0, 0], idx := 1, socket := 0\<rparr>]]"
  by (simp add: update_def update_ep_def store_value_def default_cfg_def initial_state_def
      tgt_of_def ep_pending_def new_endpoint_def ai0_def target_valid_def endpoint_valid_def
      elapsed_us_def timersub_def Let_def eval_nat_numeral)

theorem timeout_breaks_cnt_eq_idx:
  "update default_cfg [tgt_of [ep_pending]] [] \<lparr>tv_sec = 102, tv_usec = 0\<rparr> gso_none
     = Inr [tgt_of [ep_pending\<lparr>values := [- 2000000, 0, 0], idx := 1, socket := 0\<rparr>]]
   \<and> cnt (ep_pending\<lparr>values := [- 2000000, 0, 0], idx := 1, socket := 0\<rparr>)
       \<noteq> idx (ep_pending\<lparr>values := [- 2000000, 0, 0], idx := 1, socket := 0\<rparr>)"
  using timeout_pass_eval by (simp add: ep_pending_def new_endpoint_def)

lemma pending_counters_ok: "all_eps counters_ok [tgt_of [ep_pending]]"
  by (simp add: all_eps_def tgt_of_def counters_ok_def ep_pending_def new_endpoint_def)

theorem update_keeps_counters_witness:
  "update default_cfg [tgt_of [ep_pending]] [] \<lparr>tv_sec = 102, tv_usec = 0\<rparr> gso_none
     = Inr [tgt_of [ep_pending\<lparr>values := [- 2000000, 0, 0], idx := 1, socket := 0\<rparr>]]
   \<and> all_eps counters_ok [tgt_of [ep_pending]]
   \<and> all_eps counters_ok [tgt_of [ep_pending\<lparr>values := [- 2000000, 0, 0], idx := 1, socket := 0\<rparr>]]
   \<and> all_eps signs_ok [tgt_of [ep_pending\<lparr>values := [- 2000000, 0, 0], idx := 1, socket := 0\<rparr>]]
   \<and> socket ep_pending \<noteq> 0
   \<and> word_of_int (timeout default_cfg * 1000)
         \<le> elapsed_us \<lparr>tv_sec = 102, tv_usec = 0\<rparr> (tvs ep_pending)
   \<and> unat (idx ep_pending) < length (values ep_pending)
   \<and> update_ep default_cfg \<lparr>tv_sec = 102, tv_usec = 0\<rparr> gso_none [] ep_pending
       = Inr (ep_pending\<lparr>values := [- 2000000, 0, 0], idx := 1, socket := 0\<rparr>)"
proof -
  have w: "all_eps (\<lambda>ep. signs_ok ep \<and> (socket ep \<noteq> 0 \<longrightarrow>
             us_in_window (elapsed_us \<lparr>tv_sec = 102, tv_usec = 0\<rparr> (tvs ep)))) [tgt_of [ep_pending]]"
    by (simp add: all_eps_def tgt_of_def signs_ok_def samples_def ep_pending_def new_endpoint_def
        us_in_window_def elapsed_us_def timersub_def)
  have h: "socket ep_pending \<noteq> 0
     \<and> word_of_int (timeout default_cfg * 1000)
         \<le> elapsed_us \<lparr>tv_sec = 102, tv_usec = 0\<rparr> (tvs ep_pending)
     \<and> unat (idx ep_pending) < length (values ep_pending)"
    by (simp add: ep_pending_def new_endpoint_def default_cfg_def initial_state_def
        elapsed_us_def timersub_def)
  have v: "ep_pending\<lparr>values := (values ep_pending)[unat (idx ep_pending) :=
              sint (- elapsed_us \<lparr>tv_sec = 102, tv_usec = 0\<rparr> (tvs ep_pending))],
            idx := idx ep_pending + 1, socket := 0\<rparr>
          = ep_pending\<lparr>values := [- 2000000, 0, 0], idx := 1, socket := 0\<rparr>"
    by (simp add: ep_pending_def new_endpoint_def elapsed_us_def timersub_def numeral_3_eq_3)
  note t = update_keeps_counters [OF timeout_pass_eval pending_counters_ok]
  from t have "update_ep default_cfg \<lparr>tv_sec = 102, tv_usec = 0\<rparr> gso_none [] ep_pending
       = Inr (ep_pending\<lparr>values := (values ep_pending)[unat (idx ep_pending) :=
              sint (- elapsed_us \<lparr>tv_sec = 102, tv_usec = 0\<rparr> (tvs ep_pending))],
            idx := idx ep_pending + 1, socket := 0\<rparr>)"
    using h by blast
  then have u: "update_ep default_cfg \<lparr>tv_sec = 102, tv_usec = 0\<rparr> gso_none [] ep_pending
       = Inr (ep_pending\<lparr>values := [- 2000000, 0, 0], idx := 1, socket := 0\<rparr>)"
    by (simp only: v)
  from t w have "all_eps counters_ok
        [tgt_of [ep_pending\<lparr>values := [- 2000000, 0, 0], idx := 1, socket := 0\<rparr>]]"
    and "all_eps signs_ok
        [tgt_of [ep_pending\<lparr>values := [- 2000000, 0, 0], idx := 1, socket := 0\<rparr>]]"
    by blast+
  with timeout_pass_eval pending_counters_ok h u show ?thesis by (intro conjI) simp_all
qed

subsection \<open>report_sk\<close>


lemma digit_char_cases:
  "d < 10 \<Longrightarrow> digit_char d \<in> set ''0123456789''"
proof -
  assume "d < 10"
  then have "d = 0 \<or> d = 1 \<or> d = 2 \<or> d = 3 \<or> d = 4 \<or> d = 5 \<or> d = 6 \<or> d = 7 \<or> d = 8 \<or> d = 9"
    by arith
  then show ?thesis by (auto simp: digit_char_def)
qed

declare dec.simps [simp del]

lemma dec_digits: "set (dec n) \<subseteq> set ''0123456789''"
proof (induction n rule: dec.induct)
  case (1 n)
  show ?case
  proof (cases "n < 10")
    case True
    then show ?thesis using digit_char_cases [of n] by (subst dec.simps) simp
  next
    case False
    have "n mod 10 < 10" by simp
    then show ?thesis using False 1 digit_char_cases [of "n mod 10"]
      by (subst dec.simps) simp
  qed
qed

lemma dec_no_semicolon: "CHR '';'' \<notin> set (dec n)"
  using dec_digits [of n] by auto

lemma fields_append:
  "CHR '';'' \<notin> set a \<Longrightarrow> fields (a @ CHR '';'' # r) = a # fields r"
  by (induction a) auto

text \<open>
  C2, as amended. In the machine-readable report the third field of the line of an
  endpoint is \<open>OK\<close> if and only if \<open>cnt\<close> is not zero, that is, at least one attempt
  ended through \<open>select\<close> (as a success or as a connection error) and not by the
  timeout; otherwise it is \<open>FAIL\<close>.
\<close>

theorem report_sk_status:
  assumes "getnameinfo w (addr ep) = Some h" and "report_sk_ep w tp ep = Inr line"
  shows "(fields line ! 2 = ''OK'') = (cnt ep \<noteq> 0) \<and> (fields line ! 2 = ''FAIL'') = (cnt ep = 0)"
proof -
  from assms obtain vs where
    l: "line = ''HAPPY.0'' @ CHR '';'' # dec (nat (time_now w mod 2 ^ 64)) @ CHR '';'' #
              (if cnt ep \<noteq> 0 then ''OK'' else ''FAIL'') @ CHR '';'' #
              (str (host tp) @ '';'' @ str (port tp) @ '';'' @ h
               @ concat (map (\<lambda>v. '';'' @ show_int v) vs) @ [CHR 0x0A])"
    by (auto simp: report_sk_ep_def split: sum.splits)
  have a: "CHR '';'' \<notin> set ''HAPPY.0''" by simp
  have b: "CHR '';'' \<notin> set (if cnt ep \<noteq> 0 then ''OK'' else ''FAIL'')" by simp
  obtain rest where "fields line = ''HAPPY.0'' # dec (nat (time_now w mod 2 ^ 64)) # (if cnt ep \<noteq> 0 then ''OK'' else ''FAIL'') # rest"
    unfolding l
    by (simp only: fields_append [OF a] fields_append [OF dec_no_semicolon] fields_append [OF b])
  then show ?thesis by simp
qed

text \<open>
  One attempt that is refused after 1234 microseconds: the line says \<open>OK\<close>, while
  no success was recorded and the only sample is negative.
\<close>

lemma refused_eval:
  "update_ep default_cfg \<lparr>tv_sec = 100, tv_usec = 1234\<rparr> gso_refused [3] ep_pending = Inr ep_refused"
  by (simp add: update_ep_def store_value_def default_cfg_def initial_state_def gso_refused_def
      ep_pending_def ep_refused_def new_endpoint_def ai0_def
      elapsed_us_def timersub_def Let_def numeral_3_eq_3)

lemma dec_1700000000: "dec 1700000000 = ''1700000000''"
  by (simp add: dec.simps digit_char_def)

lemma refused_line:
  "report_sk_ep world0 (tgt_of [ep_refused]) ep_refused
     = Inr (''HAPPY.0;1700000000;OK;localhost;80;127.0.0.1;-1234'' @ [CHR 0x0A])"
  by (simp add: report_sk_ep_def world0_def numeric0_def read_samples_def ep_refused_def
      ep_pending_def new_endpoint_def ai0_def tgt_of_def str_def show_int_def dec_1700000000)
    (simp add: dec.simps digit_char_def)

theorem refused_reports_ok:
  "update_ep default_cfg \<lparr>tv_sec = 100, tv_usec = 1234\<rparr> gso_refused [3] ep_pending = Inr ep_refused
   \<and> report_sk_ep world0 (tgt_of [ep_refused]) ep_refused
       = Inr (''HAPPY.0;1700000000;OK;localhost;80;127.0.0.1;-1234'' @ [CHR 0x0A])
   \<and> fields (''HAPPY.0;1700000000;OK;localhost;80;127.0.0.1;-1234'' @ [CHR 0x0A]) ! 2 = ''OK''
   \<and> tot ep_refused = 0 \<and> samples ep_refused = [- 1234] \<and> count_nonneg (samples ep_refused) = 0"
  using refused_eval refused_line
  by (simp add: ep_refused_def ep_pending_def new_endpoint_def samples_def)

theorem report_sk_status_witness:
  "getnameinfo world0 (addr ep_refused) = Some ''127.0.0.1''
   \<and> report_sk_ep world0 (tgt_of [ep_refused]) ep_refused
       = Inr (''HAPPY.0;1700000000;OK;localhost;80;127.0.0.1;-1234'' @ [CHR 0x0A])
   \<and> fields (''HAPPY.0;1700000000;OK;localhost;80;127.0.0.1;-1234'' @ [CHR 0x0A]) ! 2 = ''OK''
   \<and> cnt ep_refused \<noteq> 0"
proof -
  have g: "getnameinfo world0 (addr ep_refused) = Some ''127.0.0.1''"
    by (simp add: world0_def numeric0_def)
  have c: "cnt ep_refused \<noteq> 0" by (simp add: ep_refused_def)
  show ?thesis
    using report_sk_status [OF g refused_line] g refused_line c by simp
qed



subsection \<open>A timeout of zero\<close>








subsection \<open>The option -t\<close>


lemma digit_value_digit_char: "d < 10 \<Longrightarrow> digit_value (digit_char d) = int d"
proof -
  assume "d < 10"
  then have "d = 0 \<or> d = 1 \<or> d = 2 \<or> d = 3 \<or> d = 4 \<or> d = 5 \<or> d = 6 \<or> d = 7 \<or> d = 8 \<or> d = 9"
    by arith
  then show ?thesis by (auto simp: digit_char_def digit_value_def)
qed

lemma isdigit_digit_char: "d < 10 \<Longrightarrow> isdigit (digit_char d)"
  using digit_char_cases [of d] by (simp add: isdigit_def)

lemma strtol_digits_dec:
  "\<exists>k. strtol_digits acc (dec n @ r) = strtol_digits (acc * 10 ^ k + int n) r"
proof (induction n arbitrary: acc r rule: dec.induct)
  case (1 n)
  show ?case
  proof (cases "n < 10")
    case True
    then have "strtol_digits acc (dec n @ r) = strtol_digits (acc * 10 ^ 1 + int n) r"
      by (subst dec.simps) (simp add: isdigit_digit_char digit_value_digit_char)
    then show ?thesis by blast
  next
    case False
    from 1 [OF False, of acc "digit_char (n mod 10) # r"] obtain k where
      k: "strtol_digits acc (dec (n div 10) @ (digit_char (n mod 10) # r))
            = strtol_digits (acc * 10 ^ k + int (n div 10)) (digit_char (n mod 10) # r)"
      by blast
    have m: "n mod 10 < 10" by simp
    have "strtol_digits acc (dec n @ r)
            = strtol_digits acc (dec (n div 10) @ (digit_char (n mod 10) # r))"
      using False by (subst dec.simps) simp
    also have "\<dots> = strtol_digits ((acc * 10 ^ k + int (n div 10)) * 10 + int (n mod 10)) r"
      using k m by (simp add: isdigit_digit_char digit_value_digit_char)
    also have "(acc * 10 ^ k + int (n div 10)) * 10 + int (n mod 10) = acc * 10 ^ Suc k + int n"
    proof -
      have "int n = int (n div 10) * 10 + int (n mod 10)"
        by (metis mult.commute of_nat_add of_nat_mult of_nat_numeral div_mult_mod_eq)
      then show ?thesis by (simp add: algebra_simps)
    qed
    finally show ?thesis by blast
  qed
qed

lemma dec_nonempty: "dec n \<noteq> []"
  by (subst dec.simps) simp

lemma hd_dec_digit: "hd (dec n) \<in> set ''0123456789''"
  using dec_digits [of n] dec_nonempty [of n] hd_in_set by blast

lemma strtol_dec:
  assumes "int n < 2 ^ 63"
  shows "strtol (dec n) = (int n, [])"
proof -
  have d: "isdigit (hd (dec n))" using hd_dec_digit [of n] by (simp add: isdigit_def)
  have ns: "\<not> isspace (hd (dec n))" using hd_dec_digit [of n] by (auto simp: isspace_def)
  have s1: "dropWhile isspace (dec n) = dec n"
    using ns dec_nonempty [of n] by (cases "dec n") simp_all
  have sg: "hd (dec n) \<noteq> CHR ''-''" "hd (dec n) \<noteq> CHR ''+''"
    using hd_dec_digit [of n] by auto
  from strtol_digits_dec [of 0 n "[]"] have v: "strtol_digits 0 (dec n) = (int n, [])" by auto
  show ?thesis
    using assms d sg dec_nonempty [of n]
    by (simp add: strtol_def s1 v Let_def)
qed

lemma strtol_minus_dec:
  assumes "int n \<le> 2 ^ 63"
  shows "strtol (CHR ''-'' # dec n) = (- int n, [])"
proof -
  have d: "isdigit (hd (dec n))" using hd_dec_digit [of n] by (simp add: isdigit_def)
  have ns: "\<not> isspace (CHR ''-'')" by (simp add: isspace_def)
  from strtol_digits_dec [of 0 n "[]"] have v: "strtol_digits 0 (dec n) = (int n, [])" by auto
  show ?thesis
    using assms d dec_nonempty [of n]
    by (simp add: strtol_def ns v Let_def)
qed

lemma sint_int32: "- (2 ^ 31) \<le> k \<Longrightarrow> k < 2 ^ 31 \<Longrightarrow> sint (word_of_int k :: 32 word) = k"
proof -
  assume a: "- (2 ^ 31) \<le> k" "k < 2 ^ 31"
  have "sint (word_of_int k :: 32 word) = signed_take_bit (LENGTH(32) - 1) k"
    by (rule sint_sbintrunc')
  also have "\<dots> = k" using a by (intro signed_take_bit_int_eq_self) simp_all
  finally show ?thesis .
qed

text \<open>
  C5, as amended. The option \<open>-t\<close> accepts every integer from 1 to \<open>2^31 - 1\<close> written
  in decimal and sets the timeout to it. It rejects, with the failure status, the
  argument \<open>0\<close>, every negative integer down to \<open>-2^31\<close>, and every argument in which
  something is left after the number that \<open>strtol\<close> reads.
\<close>

theorem option_t:
  "(0 < n \<and> int n < 2 ^ 31 \<longrightarrow>
      handle_option w st (CHR ''t'', dec n) = Inr (st\<lparr>cfg := (cfg st)\<lparr>timeout := int n\<rparr>\<rparr>))
   \<and> handle_option w st (CHR ''t'', ''0'') = Inl ExitFailure
   \<and> (int k \<le> 2 ^ 31 \<longrightarrow> handle_option w st (CHR ''t'', CHR ''-'' # dec k) = Inl ExitFailure)
   \<and> (snd (strtol s) \<noteq> [] \<longrightarrow> handle_option w st (CHR ''t'', s) = Inl ExitFailure)"
proof (intro conjI impI)
  assume a: "0 < n \<and> int n < 2 ^ 31"
  then have "strtol (dec n) = (int n, [])" by (intro strtol_dec) simp
  moreover have "sint (word_of_int (int n) :: 32 word) = int n"
    using a by (intro sint_int32) simp_all
  ultimately have "option_num (dec n) = (int n, True)" by (simp add: option_num_def)
  then show "handle_option w st (CHR ''t'', dec n) = Inr (st\<lparr>cfg := (cfg st)\<lparr>timeout := int n\<rparr>\<rparr>)"
    using a by (simp add: handle_option_def)
next
  have "option_num ''0'' = (0, True)" by code_simp
  then show "handle_option w st (CHR ''t'', ''0'') = Inl ExitFailure"
    by (simp add: handle_option_def)
next
  assume a: "int k \<le> 2 ^ 31"
  then have "strtol (CHR ''-'' # dec k) = (- int k, [])" by (intro strtol_minus_dec) simp
  moreover have "sint (word_of_int (- int k) :: 32 word) = - int k"
    using a by (intro sint_int32) simp_all
  ultimately have "option_num (CHR ''-'' # dec k) = (- int k, True)" by (simp add: option_num_def)
  then show "handle_option w st (CHR ''t'', CHR ''-'' # dec k) = Inl ExitFailure"
    by (simp add: handle_option_def)
next
  assume "snd (strtol s) \<noteq> []"
  then have "snd (option_num s) = False"
    by (cases "strtol s") (simp add: option_num_def)
  then show "handle_option w st (CHR ''t'', s) = Inl ExitFailure"
    by (cases "option_num s") (simp add: handle_option_def)
qed

text \<open>\<open>-t 0\<close> ends the program with the failure status.\<close>

theorem option_t_rejects_zero:
  "main world0 [(CHR ''t'', ''0'')] [''localhost''] [ok_round, ok_round, ok_round]
     = Inl ExitFailure"
  by code_simp

theorem option_t_witness:
  "(0 :: nat) < 1500 \<and> int 1500 < 2 ^ 31 \<and> dec 1500 = ''1500''
   \<and> handle_option world0 initial_state (CHR ''t'', ''1500'')
       = Inr (initial_state\<lparr>cfg := (cfg initial_state)\<lparr>timeout := 1500\<rparr>\<rparr>)
   \<and> int 5 \<le> 2 ^ 31 \<and> CHR ''-'' # dec 5 = ''-5''
   \<and> handle_option world0 initial_state (CHR ''t'', ''-5'') = Inl ExitFailure
   \<and> snd (strtol ''12ms'') \<noteq> []
   \<and> handle_option world0 initial_state (CHR ''t'', ''12ms'') = Inl ExitFailure"
proof -
  have d: "dec 1500 = ''1500''" "dec 5 = ''5''" by (simp_all add: dec.simps digit_char_def)
  have s: "snd (strtol ''12ms'') \<noteq> []" by code_simp
  show ?thesis
    using option_t [of 1500 world0 initial_state 5 "''12ms''"] d s by simp
qed

subsection \<open>cmp and sort\<close>


















subsection \<open>report\<close>






lemma dec_no_space: "CHR '' '' \<notin> set (dec n)"
  using dec_digits [of n] by auto









subsection \<open>The test that ends the nap\<close>

lemma timersub_usec:
  assumes "normal a" "normal b"
  shows "usec_of (timersub b a) = usec_of b - usec_of a" and "normal (timersub b a)"
  using assms by (auto simp: timersub_def usec_of_def normal_def Let_def)

lemma delay_tv_usec:
  assumes "0 \<le> delay c"
  shows "usec_of (delay_tv c) = delay c * 1000" and "normal (delay_tv c)"
proof -
  define q r where "q = delay c div 1000" and "r = delay c mod 1000"
  have d: "delay c = q * 1000 + r" by (simp add: q_def r_def)
  have "delay c * 1000 = (q * 1000 + r) * 1000"
    using d by (rule arg_cong [where f = "\<lambda>x. x * 1000"])
  also have "\<dots> = q * 1000000 + r * 1000" by (simp add: algebra_simps)
  finally show "usec_of (delay_tv c) = delay c * 1000"
    by (simp add: usec_of_def delay_tv_def q_def r_def)
  have "0 \<le> delay c mod 1000" "delay c mod 1000 < 1000" by simp_all
  then show "normal (delay_tv c)" by (simp add: normal_def delay_tv_def)
qed

lemma timercmp_lt_usec:
  assumes "normal a" "normal b"
  shows "timercmp_lt a b = (usec_of a < usec_of b)"
  using assms by (auto simp: timercmp_lt_def usec_of_def normal_def)

lemma nap_exit_test:
  assumes "0 \<le> delay c" "normal dts" "normal t"
  shows "timercmp_lt (delay_tv c) (timersub t dts) = (delay c * 1000 < usec_of t - usec_of dts)"
  using assms
  by (simp add: timercmp_lt_usec delay_tv_usec timersub_usec)

lemma nap_Cons:
  "nap c dts ts (p # ps) =
     (if timercmp_lt (delay_tv c) (timersub (now p) dts) then Inr ts
      else (case sel p (1 + snd (generate_fdset ts)) (fst (generate_fdset ts))
                   (Some (timersub (timeradd dts (delay_tv c)) (now p))) of
              None \<Rightarrow> Inl ExitFailure
            | Some ready \<Rightarrow>
                (case update c ts ready (upd_now p) (upd_gso p) of
                   Inl e \<Rightarrow> Inl e
                 | Inr ts1 \<Rightarrow> nap c dts ts1 ps)))"
  by (simp add: Let_def split: prod.splits)

subsection \<open>prepare\<close>

text \<open>
  C3. A host with an IPv6 and an IPv4 address, on a system where \<open>socket\<close> fails
  with \<open>EAFNOSUPPORT\<close> for the first; default settings. \<open>prepare\<close> leaves
  \<open>ep->socket = -1\<close> for the first endpoint, and the \<open>update\<close> in the nap before the
  second connect takes it for a pending attempt that has timed out: when \<open>prepare\<close>
  returns, the endpoint that was skipped has a sample, and it ends the round with as
  many samples as the other.
\<close>

theorem skipped_endpoint_gets_sample:
  "map_sum id all_samples
     (prepare default_cfg (expand_ports world1 default_cfg ''dual'' [''80''] []) (visits round_skip))
     = Inr [[- 404686048], []]
   \<and> map_sum id all_samples
        (rounds default_cfg 1 (expand_ports world1 default_cfg ''dual'' [''80''] []) [round_skip])
     = Inr [[- 404686048], [1234]]"
  by code_simp

subsection \<open>The sample index and the buffer\<close>


lemma update_ep_attempts:
  assumes "update_ep c tv gso fdset ep = Inr ep'" and "length (values ep) < 2 ^ 32"
  shows "attempts ep' \<le> attempts ep \<and> length (values ep') = length (values ep)"
  using assms(1)
proof (cases rule: update_ep_cases)
  case untouched
  then show ?thesis by simp
next
  case timeout
  have "unat (idx ep + 1) = Suc (unat (idx ep))"
    by (rule unat_inc32 [OF timeout(2) assms(2)])
  then show ?thesis using timeout(1) by (simp add: timeout(4) timed_out_def attempts_def)
next
  case success
  have "unat (idx ep + 1) = Suc (unat (idx ep))"
    by (rule unat_inc32 [OF success(2) assms(2)])
  then show ?thesis using success(1) by (simp add: success(3) succeeded_def attempts_def)
next
  case failure
  have "unat (idx ep + 1) = Suc (unat (idx ep))"
    by (rule unat_inc32 [OF failure(2) assms(2)])
  then show ?thesis using failure(1) by (simp add: failure(3) failed_def attempts_def)
qed

lemma update_ep_in_bounds:
  assumes "room n ep" and "attempts ep \<le> n"
  shows "update_ep c tv gso fdset ep \<noteq> Inl OutOfBounds"
proof (cases "socket ep = 0")
  case True
  then show ?thesis by (simp add: update_ep_def Let_def)
next
  case False
  then have "unat (idx ep) < length (values ep)"
    using assms by (simp add: attempts_def room_def)
  then show ?thesis
    by (simp add: update_ep_def Let_def store_value_def split: option.splits)
qed

lemma update_eps_error:
  "update_eps c tv gso fdset eps = Inl e \<Longrightarrow>
   \<exists>ep \<in> set eps. update_ep c tv gso fdset ep = Inl e"
proof (induction eps)
  case Nil
  then show ?case by simp
next
  case (Cons ep eps)
  show ?case
  proof (cases "update_ep c tv gso fdset ep")
    case (Inl e')
    then show ?thesis using Cons.prems by (auto split: if_splits)
  next
    case (Inr ep1)
    then have "update_eps c tv gso fdset eps = Inl e"
      using Cons.prems by (auto split: if_splits sum.splits)
    then show ?thesis using Cons.IH by auto
  qed
qed

lemma update_tgts_error:
  "update_tgts c tv gso fdset ts = Inl e \<Longrightarrow>
   \<exists>tp \<in> set ts. \<exists>ep \<in> set (endpoints tp). update_ep c tv gso fdset ep = Inl e"
proof (induction ts)
  case Nil
  then show ?case by simp
next
  case (Cons tp tps)
  show ?case
  proof (cases "update_eps c tv gso fdset (endpoints tp)")
    case (Inl e')
    then have "e' = e" using Cons.prems by (auto split: if_splits)
    then show ?thesis using Inl update_eps_error [of c tv gso fdset "endpoints tp" e] by auto
  next
    case (Inr eps1)
    then have "update_tgts c tv gso fdset tps = Inl e"
      using Cons.prems by (auto split: if_splits sum.splits)
    then show ?thesis using Cons.IH by auto
  qed
qed

lemma update_nth:
  assumes "update c ts fdset tv gso = Inr ts'"
  shows "length ts' = length ts"
    and "t < length ts \<Longrightarrow> length (endpoints (ts' ! t)) = length (endpoints (ts ! t))"
    and "t < length ts \<Longrightarrow> e < length (endpoints (ts ! t)) \<Longrightarrow>
         update_ep c tv gso fdset (endpoints (ts ! t) ! e) = Inr (endpoints (ts' ! t) ! e)
         \<or> endpoints (ts' ! t) ! e = endpoints (ts ! t) ! e"
proof -
  let ?R = "\<lambda>ep ep'. update_ep c tv gso fdset ep = Inr ep' \<or> ep' = ep"
  note r = update_rel [OF assms]
  show len: "length ts' = length ts" using list_all2_lengthD [OF r] by simp
  {
    assume t: "t < length ts"
    have rt: "list_all2 ?R (endpoints (ts ! t)) (endpoints (ts' ! t))"
      using list_all2_nthD [OF r t] by simp
    show "length (endpoints (ts' ! t)) = length (endpoints (ts ! t))"
      using list_all2_lengthD [OF rt] by simp
    assume e: "e < length (endpoints (ts ! t))"
    show "update_ep c tv gso fdset (endpoints (ts ! t) ! e) = Inr (endpoints (ts' ! t) ! e)
         \<or> endpoints (ts' ! t) ! e = endpoints (ts ! t) ! e"
      using list_all2_nthD [OF rt e] by simp
  }
qed

lemma pass_invD:
  assumes "pass_inv n r ti ei ts" "t < length ts" "e < length (endpoints (ts ! t))"
  shows "room n (endpoints (ts ! t) ! e)"
    and "attempts (endpoints (ts ! t) ! e) \<le> (if before t e ti ei then Suc r else r)"
    and "attempts (endpoints (ts ! t) ! e) \<le> Suc r"
    and "attempts (endpoints (ts ! t) ! e) \<le> n"
proof -
  from assms show a: "room n (endpoints (ts ! t) ! e)"
    and b: "attempts (endpoints (ts ! t) ! e) \<le> (if before t e ti ei then Suc r else r)"
    unfolding pass_inv_def by blast+
  from b show c: "attempts (endpoints (ts ! t) ! e) \<le> Suc r" by (simp split: if_splits)
  from assms(1) have "Suc r \<le> n" by (simp add: pass_inv_def)
  then show "attempts (endpoints (ts ! t) ! e) \<le> n" using c by simp
qed

lemma update_pass_inv:
  assumes "pass_inv n r ti ei ts"
  shows "update c ts fdset tv gso \<noteq> Inl OutOfBounds"
    and "update c ts fdset tv gso = Inr ts' \<Longrightarrow> pass_inv n r ti ei ts'"
proof -
  show "update c ts fdset tv gso \<noteq> Inl OutOfBounds"
  proof
    assume a: "update c ts fdset tv gso = Inl OutOfBounds"
    then have "update_tgts c tv gso fdset ts = Inl OutOfBounds"
      by (cases ts) (simp_all add: update_def)
    from update_tgts_error [OF this] obtain tp ep where tp: "tp \<in> set ts"
      and ep: "ep \<in> set (endpoints tp)" and u: "update_ep c tv gso fdset ep = Inl OutOfBounds"
      by blast
    from tp obtain t where t: "t < length ts" "ts ! t = tp" by (auto simp: in_set_conv_nth)
    from ep obtain e where e: "e < length (endpoints tp)" "endpoints tp ! e = ep"
      by (auto simp: in_set_conv_nth)
    have "room n ep \<and> attempts ep \<le> n"
      using pass_invD(1,4) [OF assms t(1), of e] t(2) e by simp
    then show False using u update_ep_in_bounds by blast
  qed
  assume u: "update c ts fdset tv gso = Inr ts'"
  show "pass_inv n r ti ei ts'"
    unfolding pass_inv_def
  proof (intro conjI allI impI)
    show "Suc r \<le> n" using assms by (simp add: pass_inv_def)
  next
    fix t e assume t': "t < length ts'" and e': "e < length (endpoints (ts' ! t))"
    have t: "t < length ts" using t' update_nth(1) [OF u] by simp
    have e: "e < length (endpoints (ts ! t))" using e' update_nth(2) [OF u t] by simp
    let ?ep = "endpoints (ts ! t) ! e" and ?ep' = "endpoints (ts' ! t) ! e"
    have old: "room n ?ep" "attempts ?ep \<le> (if before t e ti ei then Suc r else r)"
      using pass_invD(1,2) [OF assms t e] by simp_all
    have "attempts ?ep' \<le> attempts ?ep \<and> length (values ?ep') = length (values ?ep)"
      using update_nth(3) [OF u t e] old(1) update_ep_attempts [of c tv gso fdset ?ep ?ep']
      by (auto simp: room_def)
    then show "room n ?ep'" and "attempts ?ep' \<le> (if before t e ti ei then Suc r else r)"
      using old by (auto simp: room_def)
  qed
qed

lemma nap_pass_inv:
  assumes "pass_inv n r ti ei ts"
  shows "nap c dts ts ps \<noteq> Inl OutOfBounds \<and> (nap c dts ts ps = Inr ts' \<longrightarrow> pass_inv n r ti ei ts')"
  using assms
proof (induction ps arbitrary: ts)
  case Nil
  then show ?case by simp
next
  case (Cons p ps)
  show ?case
  proof (cases "timercmp_lt (delay_tv c) (timersub (now p) dts)")
    case True
    then show ?thesis using Cons.prems by (auto simp add: nap_Cons simp del: nap.simps)
  next
    case False
    let ?s = "sel p (1 + snd (generate_fdset ts)) (fst (generate_fdset ts))
                (Some (timersub (timeradd dts (delay_tv c)) (now p)))"
    show ?thesis
    proof (cases ?s)
      case None
      then show ?thesis using False by (simp add: nap_Cons del: nap.simps)
    next
      case (Some ready)
      show ?thesis
      proof (cases "update c ts ready (upd_now p) (upd_gso p)")
        case (Inl e)
        then have "e \<noteq> OutOfBounds" using update_pass_inv(1) [OF Cons.prems] by metis
        then show ?thesis using False Some Inl by (simp add: nap_Cons del: nap.simps)
      next
        case (Inr ts1)
        have "pass_inv n r ti ei ts1" using update_pass_inv(2) [OF Cons.prems Inr] .
        from Cons.IH [OF this] show ?thesis
          using False Some Inr by (simp add: nap_Cons del: nap.simps)
      qed
    qed
  qed
qed


lemma same_shape_refl: "same_shape ts ts"
  by (simp add: same_shape_def)

lemma same_shape_trans: "same_shape a b \<Longrightarrow> same_shape b d \<Longrightarrow> same_shape a d"
  by (simp add: same_shape_def)

lemma update_shape: "update c ts fdset tv gso = Inr ts' \<Longrightarrow> same_shape ts ts'"
  using update_nth(1,2) [of c ts fdset tv gso ts'] by (simp add: same_shape_def)

lemma nap_shape: "nap c dts ts ps = Inr ts' \<Longrightarrow> same_shape ts ts'"
proof (induction ps arbitrary: ts)
  case Nil
  then show ?case by simp
next
  case (Cons p ps)
  show ?case
  proof (cases "timercmp_lt (delay_tv c) (timersub (now p) dts)")
    case True
    then show ?thesis using Cons.prems by (auto simp add: nap_Cons same_shape_refl simp del: nap.simps)
  next
    case False
    then obtain ready ts1 where u: "update c ts ready (upd_now p) (upd_gso p) = Inr ts1"
      and n: "nap c dts ts1 ps = Inr ts'"
      using Cons.prems
      by (auto simp add: nap_Cons simp del: nap.simps split: option.splits sum.splits)
    from same_shape_trans [OF update_shape [OF u] Cons.IH [OF n]] show ?thesis .
  qed
qed

lemma collect_loop_pass_inv:
  assumes "pass_inv n r ti ei ts"
  shows "collect_loop c ts ps \<noteq> Inl OutOfBounds
         \<and> (collect_loop c ts ps = Inr ts' \<longrightarrow> pass_inv n r ti ei ts')"
  using assms
proof (induction ps arbitrary: ts)
  case Nil
  then show ?case by (auto simp: Let_def split: prod.splits)
next
  case (Cons p ps)
  obtain fdset mx where g: "generate_fdset ts = (fdset, mx)" by (cases "generate_fdset ts")
  show ?case
  proof (cases "mx = - 1")
    case True
    then show ?thesis using Cons.prems g by auto
  next
    case False
    show ?thesis
    proof (cases "sel p (1 + mx) fdset (collect_to c)")
      case None
      then show ?thesis using False g by simp
    next
      case (Some ready)
      show ?thesis
      proof (cases "update c ts ready (upd_now p) (upd_gso p)")
        case (Inl e)
        then have "e \<noteq> OutOfBounds" using update_pass_inv(1) [OF Cons.prems] by metis
        then show ?thesis using False g Some Inl by simp
      next
        case (Inr ts1)
        have "pass_inv n r ti ei ts1" using update_pass_inv(2) [OF Cons.prems Inr] .
        from Cons.IH [OF this] show ?thesis using False g Some Inr by simp
      qed
    qed
  qed
qed

lemma pass_inv_set_endpoint:
  assumes p: "pass_inv n r ti ei ts" and ti: "ti < length ts"
    and ei: "ei < length (endpoints (ts ! ti))"
    and v: "length (values ep') = length (values (endpoints (ts ! ti) ! ei))"
    and i: "idx ep' = idx (endpoints (ts ! ti) ! ei)"
  shows "pass_inv n r ti (Suc ei) (set_endpoint ts ti ei ep')"
  unfolding pass_inv_def
proof (intro conjI allI impI)
  show "Suc r \<le> n" using p by (simp add: pass_inv_def)
next
  let ?ts = "set_endpoint ts ti ei ep'"
  fix t e assume t': "t < length ?ts" and e': "e < length (endpoints (?ts ! t))"
  have t: "t < length ts" using t' by (simp add: set_endpoint_def)
  have e: "e < length (endpoints (ts ! t))"
    using e' t ti by (cases "t = ti") (simp_all add: set_endpoint_def)
  let ?old = "endpoints (ts ! ti) ! ei"
  have "room n (endpoints (?ts ! t) ! e)
        \<and> attempts (endpoints (?ts ! t) ! e) \<le> (if before t e ti (Suc ei) then Suc r else r)"
  proof (cases "t = ti \<and> e = ei")
    case True
    then have n: "endpoints (?ts ! t) ! e = ep'" using ti ei by (simp add: set_endpoint_def)
    have "attempts ?old \<le> r"
      using pass_invD(2) [OF p ti ei] by (simp add: before_def)
    then have "unat (idx ep') \<le> r" using i by (simp add: attempts_def)
    then have "attempts ep' \<le> Suc r" by (simp add: attempts_def)
    moreover have "room n ep'" using pass_invD(1) [OF p ti ei] v by (simp add: room_def)
    ultimately show ?thesis using n True by (simp add: before_def)
  next
    case False
    then have n: "endpoints (?ts ! t) ! e = endpoints (ts ! t) ! e"
      using ti by (cases "t = ti") (auto simp: set_endpoint_def)
    have "before t e ti ei \<longrightarrow> before t e ti (Suc ei)" by (auto simp: before_def)
    moreover have "\<not> before t e ti ei \<longrightarrow> \<not> before t e ti (Suc ei)"
      using False by (auto simp: before_def)
    ultimately show ?thesis using pass_invD(1,2) [OF p t e] n by auto
  qed
  then show "room n (endpoints (?ts ! t) ! e)"
    and "attempts (endpoints (?ts ! t) ! e) \<le> (if before t e ti (Suc ei) then Suc r else r)"
    by simp_all
qed

lemma prepare_ep_issued:
  assumes "(if delay c \<noteq> 0 then nap c (nap_start v) ts (nap_passes v) else Inr ts) = Inr ts1"
  shows "prepare_ep c ti ei ts v
           = Inr (set_endpoint ts1 ti ei (issued v (endpoints (ts1 ! ti) ! ei)))"
  using assms
  by (simp add: prepare_ep_def Let_def issued_def split: sock_errno.splits)

lemma issued_keeps: "idx (issued v ep) = idx ep" "values (issued v ep) = values ep"
  by (simp_all add: issued_def split: sock_errno.splits)

lemma prepare_ep_pass_inv:
  assumes p: "pass_inv n r ti ei ts" and ti: "ti < length ts"
    and ei: "ei < length (endpoints (ts ! ti))"
  shows "prepare_ep c ti ei ts v \<noteq> Inl OutOfBounds
         \<and> (prepare_ep c ti ei ts v = Inr ts' \<longrightarrow>
              pass_inv n r ti (Suc ei) ts' \<and> length ts' = length ts
              \<and> length (endpoints (ts' ! ti)) = length (endpoints (ts ! ti)))"
proof -
  let ?napped = "if delay c \<noteq> 0 then nap c (nap_start v) ts (nap_passes v) else Inr ts"
  have nx: "?napped \<noteq> Inl OutOfBounds" using nap_pass_inv [OF p] by simp
  show ?thesis
  proof (cases ?napped)
    case (Inl e)
    then have "prepare_ep c ti ei ts v = Inl e" by (simp add: prepare_ep_def)
    then show ?thesis using nx Inl by simp
  next
    case (Inr ts1)
    have p1: "pass_inv n r ti ei ts1"
      using Inr nap_pass_inv [OF p, of c "nap_start v" "nap_passes v" ts1] p
      by (auto split: if_splits)
    have "same_shape ts ts1"
      using Inr nap_shape [of c "nap_start v" ts "nap_passes v" ts1]
      by (auto simp: same_shape_refl split: if_splits)
    then have sh: "length ts1 = length ts \<and> length (endpoints (ts1 ! ti)) = length (endpoints (ts ! ti))"
      using ti by (simp add: same_shape_def)
    then have ti1: "ti < length ts1" and ei1: "ei < length (endpoints (ts1 ! ti))"
      using ti ei by simp_all
    let ?ep = "endpoints (ts1 ! ti) ! ei"
    define ep' where "ep' = issued v ?ep"
    have r: "prepare_ep c ti ei ts v = Inr (set_endpoint ts1 ti ei ep')"
      unfolding ep'_def by (rule prepare_ep_issued [OF Inr])
    have v': "length (values ep') = length (values ?ep)" and i': "idx ep' = idx ?ep"
      by (simp_all add: ep'_def issued_keeps)
    have "pass_inv n r ti (Suc ei) (set_endpoint ts1 ti ei ep')"
      by (rule pass_inv_set_endpoint [OF p1 ti1 ei1 v' i'])
    moreover have "length (set_endpoint ts1 ti ei ep') = length ts"
      "length (endpoints (set_endpoint ts1 ti ei ep' ! ti)) = length (endpoints (ts ! ti))"
      using sh ti1 by (simp_all add: set_endpoint_def)
    ultimately show ?thesis using r by auto
  qed
qed


lemma pass_inv_next_target:
  "pass_inv n r ti ei ts \<Longrightarrow> pass_inv n r (Suc ti) 0 ts"
  unfolding pass_inv_def before_def
  by (auto split: if_splits) (metis le_SucI)+

lemma prepare_eps_pass_inv:
  assumes "pass_inv n r ti ei ts" and "ti < length ts"
    and "ei + m = length (endpoints (ts ! ti))"
  shows "prepare_eps c ti ei m ts vs \<noteq> Inl OutOfBounds
         \<and> (\<forall>ts' vs'. prepare_eps c ti ei m ts vs = Inr (ts', vs') \<longrightarrow>
              pass_inv n r (Suc ti) 0 ts' \<and> length ts' = length ts)"
  using assms
proof (induction m arbitrary: ei ts vs)
  case 0
  then show ?case by (auto intro: pass_inv_next_target)
next
  case (Suc m)
  have ei: "ei < length (endpoints (ts ! ti))" using Suc.prems(3) by simp
  show ?case
  proof (cases "endpoint_valid (endpoints (ts ! ti) ! ei)")
    case False
    then show ?thesis using Suc.prems(1) by (auto intro: pass_inv_next_target)
  next
    case True
    show ?thesis
    proof (cases vs)
      case Nil
      then show ?thesis using True by simp
    next
      case (Cons v vs1)
      have pe: "prepare_ep c ti ei ts v \<noteq> Inl OutOfBounds
         \<and> (\<forall>ts'. prepare_ep c ti ei ts v = Inr ts' \<longrightarrow>
              pass_inv n r ti (Suc ei) ts' \<and> length ts' = length ts
              \<and> length (endpoints (ts' ! ti)) = length (endpoints (ts ! ti)))"
        using prepare_ep_pass_inv [OF Suc.prems(1,2) ei] by blast
      show ?thesis
      proof (cases "prepare_ep c ti ei ts v")
        case (Inl e)
        then have "e \<noteq> OutOfBounds" using pe by auto
        then show ?thesis using True Cons Inl by simp
      next
        case (Inr ts1)
        have p1: "pass_inv n r ti (Suc ei) ts1" and l1: "length ts1 = length ts"
          and l2: "length (endpoints (ts1 ! ti)) = length (endpoints (ts ! ti))"
          using pe Inr by simp_all
        have "Suc ei + m = length (endpoints (ts1 ! ti))" using Suc.prems(3) l2 by simp
        from Suc.IH [OF p1 _ this, of vs1] Suc.prems(2) l1
        show ?thesis using True Cons Inr by simp
      qed
    qed
  qed
qed

lemma prepare_tgts_pass_inv:
  assumes "pass_inv n r ti 0 ts" and "ti + m = length ts"
  shows "prepare_tgts c ti m ts vs \<noteq> Inl OutOfBounds
         \<and> (\<forall>ts' vs'. prepare_tgts c ti m ts vs = Inr (ts', vs') \<longrightarrow>
              (\<exists>tj. pass_inv n r tj 0 ts'))"
  using assms
proof (induction m arbitrary: ti ts vs)
  case 0
  then show ?case by auto
next
  case (Suc m)
  have ti: "ti < length ts" using Suc.prems(2) by simp
  show ?case
  proof (cases "target_valid (ts ! ti)")
    case False
    then show ?thesis using Suc.prems(1) by auto
  next
    case True
    have pe: "prepare_eps c ti 0 (length (endpoints (ts ! ti))) ts vs \<noteq> Inl OutOfBounds
         \<and> (\<forall>ts' vs'. prepare_eps c ti 0 (length (endpoints (ts ! ti))) ts vs = Inr (ts', vs') \<longrightarrow>
              pass_inv n r (Suc ti) 0 ts' \<and> length ts' = length ts)"
      by (rule prepare_eps_pass_inv [OF Suc.prems(1) ti]) simp
    show ?thesis
    proof (cases "prepare_eps c ti 0 (length (endpoints (ts ! ti))) ts vs")
      case (Inl e)
      then have "e \<noteq> OutOfBounds" using pe by auto
      then show ?thesis using True Inl by simp
    next
      case (Inr x)
      obtain ts1 vs1 where x: "x = (ts1, vs1)" by (cases x)
      have p1: "pass_inv n r (Suc ti) 0 ts1" and l1: "length ts1 = length ts"
        using pe Inr x by simp_all
      have "Suc ti + m = length ts1" using Suc.prems(2) l1 by simp
      from Suc.IH [OF p1 this, of vs1] show ?thesis using True Inr x by simp
    qed
  qed
qed

lemma pass_inv_start:
  "pass_inv n r ti ei ts \<Longrightarrow> Suc (Suc r) \<le> n \<Longrightarrow> pass_inv n (Suc r) 0 0 ts"
  unfolding pass_inv_def before_def
  by (auto split: if_splits) (metis le_SucI)+

lemma prepare_pass_inv:
  assumes "pass_inv n r 0 0 ts"
  shows "prepare c ts vs \<noteq> Inl OutOfBounds
         \<and> (prepare c ts vs = Inr ts' \<longrightarrow> (\<exists>tj ej. pass_inv n r tj ej ts'))"
proof (cases ts)
  case Nil
  then show ?thesis by (simp add: prepare_def)
next
  case (Cons tp tps)
  show ?thesis
  proof (cases "num_endpoints tp = 0")
    case True
    then show ?thesis using assms Cons by (auto simp: prepare_def)
  next
    case False
    have pt: "prepare_tgts c 0 (length ts) ts vs \<noteq> Inl OutOfBounds
         \<and> (\<forall>ts' vs'. prepare_tgts c 0 (length ts) ts vs = Inr (ts', vs') \<longrightarrow>
              (\<exists>tj. pass_inv n r tj 0 ts'))"
      by (rule prepare_tgts_pass_inv [OF assms]) simp
    show ?thesis
    proof (cases "prepare_tgts c 0 (length ts) ts vs")
      case (Inl e)
      then have "e \<noteq> OutOfBounds" using pt by auto
      then show ?thesis using False Cons Inl by (simp add: prepare_def)
    next
      case (Inr x)
      obtain ts1 vs1 where x: "x = (ts1, vs1)" by (cases x)
      then have "\<exists>tj. pass_inv n r tj 0 ts1" using pt Inr by simp
      then show ?thesis using False Cons Inr x by (auto simp: prepare_def)
    qed
  qed
qed

lemma rounds_pass_inv:
  assumes "pass_inv n r 0 0 ts" and "r + k \<le> n"
  shows "rounds c k ts rs \<noteq> Inl OutOfBounds
         \<and> (rounds c k ts rs = Inr ts' \<longrightarrow>
              (\<forall>t < length ts'. \<forall>e < length (endpoints (ts' ! t)).
                 unat (idx (endpoints (ts' ! t) ! e)) \<le> n
                 \<and> unat (idx (endpoints (ts' ! t) ! e)) \<le> length (values (endpoints (ts' ! t) ! e))))"
  using assms
proof (induction k arbitrary: r ts rs)
  case 0
  have "\<forall>t < length ts. \<forall>e < length (endpoints (ts ! t)).
          unat (idx (endpoints (ts ! t) ! e)) \<le> n
          \<and> unat (idx (endpoints (ts ! t) ! e)) \<le> length (values (endpoints (ts ! t) ! e))"
  proof (intro allI impI)
    fix t e assume t: "t < length ts" and e: "e < length (endpoints (ts ! t))"
    from pass_invD(1,4) [OF "0.prems"(1) t e]
    show "unat (idx (endpoints (ts ! t) ! e)) \<le> n
          \<and> unat (idx (endpoints (ts ! t) ! e)) \<le> length (values (endpoints (ts ! t) ! e))"
      by (simp add: attempts_def room_def)
  qed
  then show ?case by auto
next
  case (Suc k)
  show ?case
  proof (cases rs)
    case Nil
    then show ?thesis by simp
  next
    case (Cons rd rs1)
    have pp: "prepare c ts (visits rd) \<noteq> Inl OutOfBounds
         \<and> (\<forall>ts'. prepare c ts (visits rd) = Inr ts' \<longrightarrow> (\<exists>tj ej. pass_inv n r tj ej ts'))"
      using prepare_pass_inv [OF Suc.prems(1)] by blast
    show ?thesis
    proof (cases "prepare c ts (visits rd)")
      case (Inl e)
      then have "e \<noteq> OutOfBounds" using pp by auto
      then show ?thesis using Cons Inl by simp
    next
      case (Inr ts1)
      then obtain tj ej where p1: "pass_inv n r tj ej ts1" using pp by auto
      have cl: "collect_loop c ts1 (waits rd) \<noteq> Inl OutOfBounds
         \<and> (\<forall>ts'. collect_loop c ts1 (waits rd) = Inr ts' \<longrightarrow> pass_inv n r tj ej ts')"
        using collect_loop_pass_inv [OF p1] by blast
      have ce: "collect c ts1 (waits rd) \<noteq> Inl OutOfBounds"
        using cl by (cases ts1) (simp_all add: collect_def)
      show ?thesis
      proof (cases "collect c ts1 (waits rd)")
        case (Inl e)
        then have "e \<noteq> OutOfBounds" using ce by auto
        then show ?thesis using Cons Inr Inl by simp
      next
        case c2: (Inr ts2)
        then have "collect_loop c ts1 (waits rd) = Inr ts2"
          by (cases ts1) (simp_all add: collect_def)
        then have p2: "pass_inv n r tj ej ts2" using cl by simp
        show ?thesis
        proof (cases k)
          case 0
          have "\<forall>t < length ts2. \<forall>e < length (endpoints (ts2 ! t)).
                  unat (idx (endpoints (ts2 ! t) ! e)) \<le> n
                  \<and> unat (idx (endpoints (ts2 ! t) ! e)) \<le> length (values (endpoints (ts2 ! t) ! e))"
          proof (intro allI impI)
            fix t e assume t: "t < length ts2" and e: "e < length (endpoints (ts2 ! t))"
            from pass_invD(1,4) [OF p2 t e]
            show "unat (idx (endpoints (ts2 ! t) ! e)) \<le> n
                  \<and> unat (idx (endpoints (ts2 ! t) ! e)) \<le> length (values (endpoints (ts2 ! t) ! e))"
              by (simp add: attempts_def room_def)
          qed
          then show ?thesis using Cons Inr c2 0 by auto
        next
          case (Suc k')
          then have "Suc (Suc r) \<le> n" using Suc.prems(2) by simp
          from pass_inv_start [OF p2 this] have p3: "pass_inv n (Suc r) 0 0 ts2" .
          have "Suc r + k \<le> n" using Suc.prems(2) by simp
          from Suc.IH [OF p3 this, of rs1] show ?thesis using Cons Inr c2 by simp
        qed
      qed
    qed
  qed
qed


lemma new_endpoint_fresh:
  "idx (new_endpoint nq ai) = 0" "socket (new_endpoint nq ai) = 0"
  "length (values (new_endpoint nq ai)) = nat nq"
  by (simp_all add: new_endpoint_def)

lemma expand_ports_fresh:
  assumes "all_eps (\<lambda>ep. idx ep = 0 \<and> socket ep = 0 \<and> length (values ep) = nat (nqueries c)) ts"
  shows "all_eps (\<lambda>ep. idx ep = 0 \<and> socket ep = 0 \<and> length (values ep) = nat (nqueries c))
           (expand_ports w c h ps ts)"
  using assms unfolding expand_ports_def
proof (induction ps arbitrary: ts)
  case Nil
  then show ?case by simp
next
  case (Cons p ps)
  have "all_eps (\<lambda>ep. idx ep = 0 \<and> socket ep = 0 \<and> length (values ep) = nat (nqueries c))
          (append_target ts (expand w c h p))"
    using Cons.prems
    by (auto simp: all_eps_def append_target_def expand_def new_endpoint_fresh
        split: option.splits)
  from Cons.IH [OF this] show ?case by simp
qed

text \<open>
  When every buffer has \<open>k\<close> slots and no endpoint has a sample or a pending connect,
  \<open>k\<close> rounds never write outside a buffer, and they leave \<open>idx <= k\<close>.
\<close>

lemma rounds_in_bounds:
  assumes "all_eps (\<lambda>ep. idx ep = 0 \<and> socket ep = 0 \<and> length (values ep) = k) ts"
    and "0 < k" and "k < 2 ^ 32"
  shows "rounds c k ts rs \<noteq> Inl OutOfBounds"
    and "rounds c k ts rs = Inr ts' \<Longrightarrow> all_eps (\<lambda>ep. unat (idx ep) \<le> k) ts'"
proof -
  have p: "pass_inv k 0 0 0 ts"
    unfolding pass_inv_def
  proof (intro conjI allI impI)
    show "Suc 0 \<le> k" using assms(2) by simp
  next
    fix t e assume "t < length ts" "e < length (endpoints (ts ! t))"
    then have "endpoints (ts ! t) ! e \<in> set (endpoints (ts ! t))" "ts ! t \<in> set ts"
      by simp_all
    then have f: "idx (endpoints (ts ! t) ! e) = 0 \<and> socket (endpoints (ts ! t) ! e) = 0
        \<and> length (values (endpoints (ts ! t) ! e)) = k"
      using assms(1) unfolding all_eps_def by blast
    show "room k (endpoints (ts ! t) ! e)" using f assms(3) by (simp add: room_def)
    show "attempts (endpoints (ts ! t) ! e) \<le> (if before t e 0 0 then Suc 0 else 0)"
      using f by (simp add: attempts_def)
  qed
  have r: "rounds c k ts rs \<noteq> Inl OutOfBounds
         \<and> (rounds c k ts rs = Inr ts' \<longrightarrow>
              (\<forall>t < length ts'. \<forall>e < length (endpoints (ts' ! t)).
                 unat (idx (endpoints (ts' ! t) ! e)) \<le> k
                 \<and> unat (idx (endpoints (ts' ! t) ! e)) \<le> length (values (endpoints (ts' ! t) ! e))))"
    by (rule rounds_pass_inv [OF p]) simp
  then show "rounds c k ts rs \<noteq> Inl OutOfBounds" by simp
  assume "rounds c k ts rs = Inr ts'"
  then have a: "\<forall>t < length ts'. \<forall>e < length (endpoints (ts' ! t)).
                 unat (idx (endpoints (ts' ! t) ! e)) \<le> k" using r by simp
  show "all_eps (\<lambda>ep. unat (idx ep) \<le> k) ts'"
    unfolding all_eps_def
  proof (intro ballI)
    fix tp ep assume "tp \<in> set ts'" "ep \<in> set (endpoints tp)"
    then obtain t e where "t < length ts'" "ts' ! t = tp" "e < length (endpoints tp)"
      "endpoints tp ! e = ep" by (auto simp: in_set_conv_nth)
    then show "unat (idx ep) \<le> k" using a by auto
  qed
qed

text \<open>
  So the rounds of \<open>main\<close> stay in bounds when the targets were expanded with the
  \<open>nqueries\<close> that the loop runs with.
\<close>

lemma expanded_rounds_in_bounds:
  assumes "0 < nqueries c" and "nqueries c < 2 ^ 32"
  shows "rounds c (nat (nqueries c)) (foldl (\<lambda>ts h. expand_ports w c h ps ts) [] hosts) rs
           \<noteq> Inl OutOfBounds"
proof -
  let ?F = "\<lambda>ep. idx ep = 0 \<and> socket ep = 0 \<and> length (values ep) = nat (nqueries c)"
  have "all_eps ?F ts \<Longrightarrow> all_eps ?F (foldl (\<lambda>ts h. expand_ports w c h ps ts) ts hosts)" for ts
  proof (induction hosts arbitrary: ts)
    case Nil
    then show ?case by simp
  next
    case (Cons h hs)
    from Cons.IH [OF expand_ports_fresh [OF Cons.prems, of w h ps]] show ?case by simp
  qed
  moreover have "all_eps ?F []" by (simp add: all_eps_def)
  ultimately have "all_eps ?F (foldl (\<lambda>ts h. expand_ports w c h ps ts) [] hosts)" by blast
  then show ?thesis using assms by (intro rounds_in_bounds(1)) simp_all
qed

lemma new_endpoint_counters:
  "0 \<le> nq \<Longrightarrow> nq < 2 ^ 32 \<Longrightarrow> counters_ok (new_endpoint nq ai) \<and> signs_ok (new_endpoint nq ai)"
  by (simp add: counters_ok_def signs_ok_def samples_def new_endpoint_def)

subsection \<open>Pacing and collecting in prepare\<close>

lemma set_positions:
  "set (positions ts) = {(t, e). t < length ts \<and> e < length (endpoints (ts ! t))}"
  by (auto simp: positions_def)

lemma distinct_pairs:
  "distinct is \<Longrightarrow> distinct (concat (map (\<lambda>t. map (Pair t) [0..<f t]) is))"
  by (induction "is") (auto simp: distinct_map inj_on_def)

lemma distinct_positions: "distinct (positions ts)"
  unfolding positions_def by (rule distinct_pairs) simp

lemma flat_positions: "flat ts = map (ep_at ts) (positions ts)"
proof -
  have "map (ep_at ts) (positions ts)
          = concat (map (\<lambda>t. map (\<lambda>e. endpoints (ts ! t) ! e) [0..<length (endpoints (ts ! t))])
                     [0..<length ts])"
    by (simp add: positions_def map_concat comp_def ep_at_def)
  also have "\<dots> = concat (map (\<lambda>t. endpoints (ts ! t)) [0..<length ts])"
    by (simp add: map_nth)
  also have "\<dots> = concat (map endpoints (map (\<lambda>t. ts ! t) [0..<length ts]))"
    by (simp add: comp_def)
  also have "\<dots> = flat ts" by (simp add: map_nth flat_def)
  finally show ?thesis by simp
qed

text \<open>What \<open>update\<close>, the nap and the loop body leave as it is.\<close>

lemma same_frame_refl: "same_frame ts ts"
  by (simp add: same_frame_def list_all2_same)

lemma same_frame_trans: "same_frame a b \<Longrightarrow> same_frame b d \<Longrightarrow> same_frame a d"
  unfolding same_frame_def
  by (erule list_all2_trans [rotated], assumption) (auto elim: list_all2_trans [rotated])

lemma same_frame_shape: "same_frame ts ts' \<Longrightarrow> same_shape ts ts'"
  by (auto simp: same_frame_def same_shape_def list_all2_conv_all_nth)

lemma same_shape_positions: "same_shape ts ts' \<Longrightarrow> positions ts' = positions ts"
  unfolding positions_def same_shape_def
  by (auto intro!: arg_cong [where f = concat])

lemma same_frame_expanded:
  assumes "same_frame ts ts'" and "expanded ts"
  shows "expanded ts'"
  unfolding expanded_def
proof
  fix tp' assume "tp' \<in> set ts'"
  then obtain t where t: "t < length ts'" "ts' ! t = tp'" by (auto simp: in_set_conv_nth)
  have l: "length ts' = length ts" using assms(1) by (simp add: same_frame_def list_all2_lengthD)
  have r: "host tp' = host (ts ! t) \<and> port tp' = port (ts ! t)
            \<and> num_endpoints tp' = num_endpoints (ts ! t)
            \<and> list_all2 (\<lambda>ep ep'. addrlen ep' = addrlen ep) (endpoints (ts ! t)) (endpoints tp')"
    using assms(1) t l by (auto simp: same_frame_def list_all2_conv_all_nth)
  have m: "ts ! t \<in> set ts" using t l by simp
  then have old: "target_valid (ts ! t)" "num_endpoints (ts ! t) = length (endpoints (ts ! t))"
    "endpoints (ts ! t) \<noteq> []" "\<forall>ep \<in> set (endpoints (ts ! t)). endpoint_valid ep"
    using assms(2) by (auto simp: expanded_def)
  have le: "length (endpoints tp') = length (endpoints (ts ! t))"
    using r by (auto dest: list_all2_lengthD)
  have "\<forall>ep' \<in> set (endpoints tp'). endpoint_valid ep'"
  proof
    fix ep' assume "ep' \<in> set (endpoints tp')"
    then obtain e where e: "e < length (endpoints tp')" "endpoints tp' ! e = ep'"
      by (auto simp: in_set_conv_nth)
    then have "addrlen ep' = addrlen (endpoints (ts ! t) ! e)"
      using r by (auto simp: list_all2_conv_all_nth)
    moreover have "endpoint_valid (endpoints (ts ! t) ! e)" using old(4) e le by simp
    ultimately show "endpoint_valid ep'" by (simp add: endpoint_valid_def)
  qed
  then show "target_valid tp' \<and> num_endpoints tp' = length (endpoints tp')
        \<and> endpoints tp' \<noteq> [] \<and> (\<forall>ep \<in> set (endpoints tp'). endpoint_valid ep)"
    using r old le by (auto simp: target_valid_def)
qed

lemma ep_at_set_endpoint:
  assumes "(ti, ei) \<in> set (positions ts)" and "q \<in> set (positions ts)"
  shows "ep_at (set_endpoint ts ti ei ep) q = (if q = (ti, ei) then ep else ep_at ts q)"
  using assms
  by (cases q) (auto simp: set_positions ep_at_def set_endpoint_def nth_list_update)

lemma set_endpoint_frame:
  assumes "(ti, ei) \<in> set (positions ts)" and "addrlen ep = addrlen (ep_at ts (ti, ei))"
  shows "same_frame ts (set_endpoint ts ti ei ep)"
  using assms
  unfolding same_frame_def set_endpoint_def
  by (auto simp: set_positions ep_at_def list_all2_conv_all_nth nth_list_update)

lemma update_ep_keeps:
  assumes "update_ep c tv gso fdset ep = Inr ep'"
  shows "addrlen ep' = addrlen ep" and "tvs ep' = tvs ep"
  using assms
  by (cases rule: update_ep_cases; simp add: timed_out_def succeeded_def failed_def)+

lemma update_frame:
  assumes "update c ts fdset tv gso = Inr ts'"
  shows "same_frame ts ts'"
  unfolding same_frame_def
proof (rule list_all2_mono [OF update_rel [OF assms]])
  fix tp tp'
  assume a: "host tp' = host tp \<and> port tp' = port tp \<and> num_endpoints tp' = num_endpoints tp \<and>
      list_all2 (\<lambda>ep ep'. update_ep c tv gso fdset ep = Inr ep' \<or> ep' = ep)
        (endpoints tp) (endpoints tp')"
  then have "list_all2 (\<lambda>ep ep'. addrlen ep' = addrlen ep) (endpoints tp) (endpoints tp')"
    by (auto elim!: list_all2_mono dest: update_ep_keeps(1))
  then show "host tp' = host tp \<and> port tp' = port tp \<and> num_endpoints tp' = num_endpoints tp
      \<and> list_all2 (\<lambda>ep ep'. addrlen ep' = addrlen ep) (endpoints tp) (endpoints tp')"
    using a by simp
qed

lemma update_ep_at:
  assumes "update c ts fdset tv gso = Inr ts'" and "q \<in> set (positions ts)"
  shows "update_ep c tv gso fdset (ep_at ts q) = Inr (ep_at ts' q) \<or> ep_at ts' q = ep_at ts q"
  using update_nth(3) [OF assms(1), of "fst q" "snd q"] assms(2)
  by (cases q) (auto simp: set_positions ep_at_def)

lemma update_eps_exact:
  "\<forall>ep \<in> set eps. endpoint_valid ep \<Longrightarrow> update_eps c tv gso fdset eps = Inr eps' \<Longrightarrow>
   list_all2 (\<lambda>ep ep'. update_ep c tv gso fdset ep = Inr ep') eps eps'"
proof (induction eps arbitrary: eps')
  case Nil
  then show ?case by simp
next
  case (Cons ep eps)
  from Cons.prems obtain ep1 eps1 where
    a: "update_ep c tv gso fdset ep = Inr ep1"
    and b: "update_eps c tv gso fdset eps = Inr eps1"
    and e: "eps' = ep1 # eps1"
    by (auto split: sum.splits)
  from Cons.IH [OF _ b] Cons.prems(1) a e show ?case by auto
qed

lemma update_tgts_exact:
  "expanded ts \<Longrightarrow> update_tgts c tv gso fdset ts = Inr ts' \<Longrightarrow>
   list_all2 (\<lambda>tp tp'. list_all2 (\<lambda>ep ep'. update_ep c tv gso fdset ep = Inr ep')
                (endpoints tp) (endpoints tp')) ts ts'"
proof (induction ts arbitrary: ts')
  case Nil
  then show ?case by simp
next
  case (Cons tp tps)
  have v: "target_valid tp" "\<forall>ep \<in> set (endpoints tp). endpoint_valid ep" "expanded tps"
    using Cons.prems(1) by (simp_all add: expanded_def)
  from Cons.prems(2) v(1) obtain eps1 tps1 where
    a: "update_eps c tv gso fdset (endpoints tp) = Inr eps1"
    and b: "update_tgts c tv gso fdset tps = Inr tps1"
    and e: "ts' = tp\<lparr>endpoints := eps1\<rparr> # tps1"
    by (auto split: sum.splits)
  from Cons.IH [OF v(3) b] update_eps_exact [OF v(2) a] e show ?case by simp
qed

lemma update_exact:
  assumes "expanded ts" and "update c ts fdset tv gso = Inr ts'" and "q \<in> set (positions ts)"
  shows "update_ep c tv gso fdset (ep_at ts q) = Inr (ep_at ts' q)"
proof -
  have "update_tgts c tv gso fdset ts = Inr ts'"
    using assms(2) by (cases ts) (simp_all add: update_def)
  from update_tgts_exact [OF assms(1) this] assms(3) show ?thesis
    by (cases q) (auto simp: set_positions ep_at_def list_all2_conv_all_nth)
qed

lemma update_ep_still:
  assumes "socket ep = 0 \<or> (socket ep \<notin> set fdset
             \<and> elapsed_us tv (tvs ep) < word_of_int (timeout c * 1000))"
  shows "update_ep c tv gso fdset ep = Inr ep"
  using assms by (auto simp: update_ep_def Let_def not_le [symmetric])

lemma update_ep_ready:
  assumes "socket ep \<noteq> 0" and "elapsed_us tv (tvs ep) < word_of_int (timeout c * 1000)"
    and "socket ep \<in> set fdset" and "gso (socket ep) = Some err"
  shows "update_ep c tv gso fdset ep =
     (if unat (idx ep) < length (values ep)
      then Inr (if err = 0 then succeeded ep (elapsed_us tv (tvs ep))
                else failed ep (elapsed_us tv (tvs ep)))
      else Inl OutOfBounds)"
proof -
  have "\<not> word_of_int (timeout c * 1000) \<le> elapsed_us tv (tvs ep)"
    using assms(2) by (simp add: not_le)
  then show ?thesis
    using assms(1,3,4)
    by (simp add: update_ep_def Let_def store_value_def succeeded_def failed_def)
qed

text \<open>Every pending socket is in the set that \<open>generate_fdset\<close> builds, and below its maximum.\<close>

lemma fdset_eps_acc:
  "\<forall>ep \<in> set eps. endpoint_valid ep \<Longrightarrow> fdset_eps eps (fds, mx) = (fds', mx') \<Longrightarrow>
   set fds \<subseteq> set fds' \<and> mx \<le> mx'
   \<and> (\<forall>ep \<in> set eps. socket ep \<noteq> 0 \<longrightarrow> socket ep \<in> set fds' \<and> socket ep \<le> mx')"
proof (induction eps arbitrary: fds mx)
  case Nil
  then show ?case by simp
next
  case (Cons ep eps)
  have v: "endpoint_valid ep" "\<forall>ep \<in> set eps. endpoint_valid ep" using Cons.prems(1) by simp_all
  show ?case
  proof (cases "socket ep = 0")
    case True
    then have "fdset_eps eps (fds, mx) = (fds', mx')" using Cons.prems(2) v(1) by simp
    from Cons.IH [OF v(2) this] True show ?thesis by simp
  next
    case False
    then have "fdset_eps eps (fds @ [socket ep], if socket ep > mx then socket ep else mx)
                 = (fds', mx')"
      using Cons.prems(2) v(1) by simp
    from Cons.IH [OF v(2) this] False show ?thesis by (auto split: if_splits)
  qed
qed

lemma fdset_tgts_acc:
  "expanded ts \<Longrightarrow> fdset_tgts ts (fds, mx) = (fds', mx') \<Longrightarrow>
   set fds \<subseteq> set fds' \<and> mx \<le> mx'
   \<and> (\<forall>tp \<in> set ts. \<forall>ep \<in> set (endpoints tp).
         socket ep \<noteq> 0 \<longrightarrow> socket ep \<in> set fds' \<and> socket ep \<le> mx')"
proof (induction ts arbitrary: fds mx)
  case Nil
  then show ?case by simp
next
  case (Cons tp tps)
  have v: "target_valid tp" "\<forall>ep \<in> set (endpoints tp). endpoint_valid ep" "expanded tps"
    using Cons.prems(1) by (simp_all add: expanded_def)
  obtain fds1 mx1 where a: "fdset_eps (endpoints tp) (fds, mx) = (fds1, mx1)"
    by (cases "fdset_eps (endpoints tp) (fds, mx)")
  then have b: "fdset_tgts tps (fds1, mx1) = (fds', mx')" using Cons.prems(2) v(1) by simp
  from fdset_eps_acc [OF v(2) a] Cons.IH [OF v(3) b] show ?case by auto
qed

lemma generate_fdset_has:
  assumes "expanded ts" and "q \<in> set (positions ts)" and "socket (ep_at ts q) \<noteq> 0"
  shows "socket (ep_at ts q) \<in> set (fst (generate_fdset ts))"
    and "socket (ep_at ts q) \<le> snd (generate_fdset ts)"
proof -
  obtain fds mx where g: "fdset_tgts ts ([], - 1) = (fds, mx)"
    by (cases "fdset_tgts ts ([], - 1)")
  have i: "fst q < length ts" "snd q < length (endpoints (ts ! fst q))"
    using assms(2) by (auto simp: set_positions)
  have m: "ts ! fst q \<in> set ts" using i(1) by simp
  have "ep_at ts q \<in> set (endpoints (ts ! fst q))" using i(2) by (simp add: ep_at_def)
  with fdset_tgts_acc [OF assms(1) g] assms(3) m
  have "socket (ep_at ts q) \<in> set fds \<and> socket (ep_at ts q) \<le> mx" by blast
  then show "socket (ep_at ts q) \<in> set (fst (generate_fdset ts))"
    and "socket (ep_at ts q) \<le> snd (generate_fdset ts)"
    using g by (simp_all add: generate_fdset_def)
qed

text \<open>The nap, pass by pass.\<close>

lemma nap_Inr_cases:
  assumes "nap c dts ts (p # ps) = Inr ts'"
  obtains
    (over) "timercmp_lt (delay_tv c) (timersub (now p) dts)" "ts' = ts"
  | (pass) ready ts1 where "\<not> timercmp_lt (delay_tv c) (timersub (now p) dts)"
      "sel p (1 + snd (generate_fdset ts)) (fst (generate_fdset ts))
         (Some (timersub (timeradd dts (delay_tv c)) (now p))) = Some ready"
      "update c ts ready (upd_now p) (upd_gso p) = Inr ts1"
      "nap c dts ts1 ps = Inr ts'"
proof (cases "timercmp_lt (delay_tv c) (timersub (now p) dts)")
  case True
  then have "ts' = ts" using assms by (simp add: nap_Cons del: nap.simps)
  then show ?thesis using True over by simp
next
  case False
  then obtain ready ts1 where
    "sel p (1 + snd (generate_fdset ts)) (fst (generate_fdset ts))
         (Some (timersub (timeradd dts (delay_tv c)) (now p))) = Some ready"
    "update c ts ready (upd_now p) (upd_gso p) = Inr ts1"
    "nap c dts ts1 ps = Inr ts'"
    using assms
    by (auto simp add: nap_Cons simp del: nap.simps split: option.splits sum.splits)
  then show ?thesis using False pass by blast
qed

lemma nap_frame: "nap c dts ts ps = Inr ts' \<Longrightarrow> same_frame ts ts'"
proof (induction ps arbitrary: ts)
  case Nil
  then show ?case by simp
next
  case (Cons p ps)
  from Cons.prems show ?case
  proof (cases rule: nap_Inr_cases)
    case over
    then show ?thesis by (simp add: same_frame_refl)
  next
    case (pass ready ts1)
    from same_frame_trans [OF update_frame [OF pass(3)] Cons.IH [OF pass(4)]] show ?thesis .
  qed
qed

lemma nap_tvs:
  "nap c dts ts ps = Inr ts' \<Longrightarrow> q \<in> set (positions ts) \<Longrightarrow> tvs (ep_at ts' q) = tvs (ep_at ts q)"
proof (induction ps arbitrary: ts)
  case Nil
  then show ?case by simp
next
  case (Cons p ps)
  from Cons.prems(1) show ?case
  proof (cases rule: nap_Inr_cases)
    case over
    then show ?thesis by simp
  next
    case (pass ready ts1)
    have "tvs (ep_at ts1 q) = tvs (ep_at ts q)"
      using update_ep_at [OF pass(3) Cons.prems(2)] by (auto dest: update_ep_keeps(2))
    moreover have "q \<in> set (positions ts1)"
      using Cons.prems(2) same_shape_positions [OF same_frame_shape [OF update_frame [OF pass(3)]]]
      by simp
    ultimately show ?thesis using Cons.IH [OF pass(4)] by simp
  qed
qed

lemma nap_still:
  assumes "nap c dts ts ps = Inr ts'" and "q \<in> set (positions ts)"
    and "socket (ep_at ts q) = 0
         \<or> (\<forall>p \<in> set ps. unreported (socket (ep_at ts q)) p \<and> in_time c (tvs (ep_at ts q)) p)"
  shows "ep_at ts' q = ep_at ts q"
  using assms
proof (induction ps arbitrary: ts)
  case Nil
  then show ?case by simp
next
  case (Cons p ps)
  from Cons.prems(1) show ?case
  proof (cases rule: nap_Inr_cases)
    case over
    then show ?thesis by simp
  next
    case (pass ready ts1)
    have "socket (ep_at ts q) = 0 \<or> (socket (ep_at ts q) \<notin> set ready
             \<and> elapsed_us (upd_now p) (tvs (ep_at ts q)) < word_of_int (timeout c * 1000))"
      using Cons.prems(3) pass(2) by (auto simp: unreported_def in_time_def)
    then have "update_ep c (upd_now p) (upd_gso p) ready (ep_at ts q) = Inr (ep_at ts q)"
      by (rule update_ep_still)
    then have e: "ep_at ts1 q = ep_at ts q" using update_ep_at [OF pass(3) Cons.prems(2)] by auto
    have "q \<in> set (positions ts1)"
      using Cons.prems(2) same_shape_positions [OF same_frame_shape [OF update_frame [OF pass(3)]]]
      by simp
    from Cons.IH [OF pass(4) this] Cons.prems(3) e show ?thesis by auto
  qed
qed

lemma finalized_socket:
  "socket (if err = 0 then succeeded ep us else failed ep us) = 0"
  by (simp add: succeeded_def failed_def)

lemma nap_finalizes:
  assumes "nap c dts ts ps = Inr ts'" and "expanded ts" and "q \<in> set (positions ts)"
    and "socket (ep_at ts q) \<noteq> 0" and "k < length ps"
    and "\<forall>j<k. unreported (socket (ep_at ts q)) (ps ! j) \<and> in_time c (tvs (ep_at ts q)) (ps ! j)"
    and "\<forall>j\<le>k. \<not> timercmp_lt (delay_tv c) (timersub (now (ps ! j)) dts)"
    and "reported (socket (ep_at ts q)) (ps ! k)" and "in_time c (tvs (ep_at ts q)) (ps ! k)"
    and "upd_gso (ps ! k) (socket (ep_at ts q)) = Some err"
  shows "ep_at ts' q =
           (if err = 0 then succeeded (ep_at ts q) (elapsed_us (upd_now (ps ! k)) (tvs (ep_at ts q)))
            else failed (ep_at ts q) (elapsed_us (upd_now (ps ! k)) (tvs (ep_at ts q))))"
  using assms
proof (induction ps arbitrary: ts k)
  case Nil
  then show ?case by simp
next
  case (Cons p ps)
  let ?ep = "ep_at ts q"
  have running: "\<not> timercmp_lt (delay_tv c) (timersub (now p) dts)"
    using Cons.prems(7) by (auto dest: spec [of _ 0])
  from Cons.prems(1) show ?case
  proof (cases rule: nap_Inr_cases)
    case over
    then show ?thesis using running by simp
  next
    case (pass ready ts1)
    have fr: "same_frame ts ts1" by (rule update_frame [OF pass(3)])
    have q1: "q \<in> set (positions ts1)"
      using Cons.prems(3) same_shape_positions [OF same_frame_shape [OF fr]] by simp
    have x1: "expanded ts1" by (rule same_frame_expanded [OF fr Cons.prems(2)])
    have u: "update_ep c (upd_now p) (upd_gso p) ready ?ep = Inr (ep_at ts1 q)"
      by (rule update_exact [OF Cons.prems(2) pass(3) Cons.prems(3)])
    show ?thesis
    proof (cases k)
      case 0
      have g: "socket ?ep \<in> set (fst (generate_fdset ts))
        \<and> socket ?ep < 1 + snd (generate_fdset ts)"
        using generate_fdset_has [OF Cons.prems(2,3,4)] by simp
      have "reported (socket ?ep) p" using Cons.prems(8) 0 by simp
      then have "\<exists>ready'. sel p (1 + snd (generate_fdset ts)) (fst (generate_fdset ts))
         (Some (timersub (timeradd dts (delay_tv c)) (now p))) = Some ready'
         \<and> socket ?ep \<in> set ready'"
        unfolding reported_def using g by blast
      then have "socket ?ep \<in> set ready" using pass(2) by auto
      moreover have "elapsed_us (upd_now p) (tvs ?ep) < word_of_int (timeout c * 1000)"
        using Cons.prems(9) 0 by (simp add: in_time_def)
      moreover have "upd_gso p (socket ?ep) = Some err" using Cons.prems(10) 0 by simp
      ultimately have "update_ep c (upd_now p) (upd_gso p) ready ?ep =
         (if unat (idx ?ep) < length (values ?ep)
          then Inr (if err = 0 then succeeded ?ep (elapsed_us (upd_now p) (tvs ?ep))
                    else failed ?ep (elapsed_us (upd_now p) (tvs ?ep)))
          else Inl OutOfBounds)"
        using Cons.prems(4) by (intro update_ep_ready)
      then have f: "ep_at ts1 q = (if err = 0 then succeeded ?ep (elapsed_us (upd_now p) (tvs ?ep))
                    else failed ?ep (elapsed_us (upd_now p) (tvs ?ep)))"
        using u by (simp split: if_splits)
      then have "socket (ep_at ts1 q) = 0" by (simp only: finalized_socket)
      then have "ep_at ts' q = ep_at ts1 q" using nap_still [OF pass(4) q1] by simp
      then show ?thesis using f 0 by simp
    next
      case (Suc k')
      have "unreported (socket ?ep) p \<and> in_time c (tvs ?ep) p"
        using Cons.prems(6) Suc by (auto dest: spec [of _ 0])
      then have "socket ?ep \<notin> set ready
             \<and> elapsed_us (upd_now p) (tvs ?ep) < word_of_int (timeout c * 1000)"
        using pass(2) by (auto simp: unreported_def in_time_def)
      then have "update_ep c (upd_now p) (upd_gso p) ready ?ep = Inr ?ep"
        by (intro update_ep_still) simp
      then have e: "ep_at ts1 q = ?ep" using u by simp
      have a: "socket (ep_at ts1 q) \<noteq> 0" "k' < length ps" using e Cons.prems(4,5) Suc by simp_all
      have b: "\<forall>j<k'. unreported (socket (ep_at ts1 q)) (ps ! j) \<and> in_time c (tvs (ep_at ts1 q)) (ps ! j)"
      proof (intro allI impI)
        fix j assume "j < k'"
        then have "Suc j < k" using Suc by simp
        with Cons.prems(6) have "unreported (socket ?ep) ((p # ps) ! Suc j)
            \<and> in_time c (tvs ?ep) ((p # ps) ! Suc j)" by blast
        then show "unreported (socket (ep_at ts1 q)) (ps ! j) \<and> in_time c (tvs (ep_at ts1 q)) (ps ! j)"
          using e by simp
      qed
      have d: "\<forall>j\<le>k'. \<not> timercmp_lt (delay_tv c) (timersub (now (ps ! j)) dts)"
      proof (intro allI impI)
        fix j assume "j \<le> k'"
        then have "Suc j \<le> k" using Suc by simp
        with Cons.prems(7)
        have "\<not> timercmp_lt (delay_tv c) (timersub (now ((p # ps) ! Suc j)) dts)" by blast
        then show "\<not> timercmp_lt (delay_tv c) (timersub (now (ps ! j)) dts)" by simp
      qed
      have r: "reported (socket (ep_at ts1 q)) (ps ! k')" "in_time c (tvs (ep_at ts1 q)) (ps ! k')"
        "upd_gso (ps ! k') (socket (ep_at ts1 q)) = Some err"
        using Cons.prems(8,9,10) Suc e by simp_all
      from Cons.IH [OF pass(4) x1 q1 a b d r] show ?thesis using e Suc by simp
    qed
  qed
qed

text \<open>The loop body, and the loop as a run of the body over the positions.\<close>

lemma issued_addrlen: "addrlen (issued v ep) = addrlen ep"
  by (simp add: issued_def split: sock_errno.splits)

lemma issued_tvs: "issues v \<Longrightarrow> issued v ep = ep\<lparr>socket := fst (sock v), tvs := started v\<rparr>"
  by (auto simp: issued_def issues_def)

lemma prepare_ep_effect:
  assumes "prepare_ep c ti ei ts v = Inr ts'" and "(ti, ei) \<in> set (positions ts)"
  obtains ts1 where
    "(if delay c \<noteq> 0 then nap c (nap_start v) ts (nap_passes v) else Inr ts) = Inr ts1"
    "same_frame ts ts1" "positions ts1 = positions ts"
    "ts' = set_endpoint ts1 ti ei (issued v (ep_at ts1 (ti, ei)))"
    "same_frame ts ts'"
proof -
  let ?napped = "if delay c \<noteq> 0 then nap c (nap_start v) ts (nap_passes v) else Inr ts"
  obtain ts1 where n: "?napped = Inr ts1"
    using assms(1) by (cases ?napped) (auto simp: prepare_ep_def)
  have f: "same_frame ts ts1"
    using n nap_frame [of c "nap_start v" ts "nap_passes v" ts1]
    by (auto simp: same_frame_refl split: if_splits)
  have p: "positions ts1 = positions ts"
    by (rule same_shape_positions [OF same_frame_shape [OF f]])
  have r: "ts' = set_endpoint ts1 ti ei (issued v (ep_at ts1 (ti, ei)))"
    using prepare_ep_issued [OF n, of ti ei] assms(1) by (simp add: ep_at_def)
  have "same_frame ts1 ts'"
    unfolding r using assms(2) p by (intro set_endpoint_frame) (simp_all add: issued_addrlen)
  then have "same_frame ts ts'" using f by (rule same_frame_trans [rotated])
  then show ?thesis using that n f p r by blast
qed

lemma steps_append:
  "steps c (a @ b) ts vs =
     (case steps c a ts vs of Inl e \<Rightarrow> Inl e | Inr (ts1, vs1) \<Rightarrow> steps c b ts1 vs1)"
  by (induction a arbitrary: ts vs) (auto split: list.splits sum.splits)

lemma steps_frame:
  "steps c qs ts vs = Inr (ts', vs') \<Longrightarrow> set qs \<subseteq> set (positions ts) \<Longrightarrow>
   same_frame ts ts' \<and> vs' = drop (length qs) vs \<and> length qs \<le> length vs"
proof (induction qs arbitrary: ts vs)
  case Nil
  then show ?case by (simp add: same_frame_refl)
next
  case (Cons q qs)
  from Cons.prems(1) obtain v vs1 ts1 where vs: "vs = v # vs1"
    and p: "prepare_ep c (fst q) (snd q) ts v = Inr ts1"
    and s: "steps c qs ts1 vs1 = Inr (ts', vs')"
    by (auto split: list.splits sum.splits)
  have q: "(fst q, snd q) \<in> set (positions ts)" using Cons.prems(2) by simp
  from p q have f: "same_frame ts ts1" by (rule prepare_ep_effect)
  then have "positions ts1 = positions ts"
    by (intro same_shape_positions same_frame_shape)
  then have "set qs \<subseteq> set (positions ts1)" using Cons.prems(2) by simp
  from Cons.IH [OF s this] f vs show ?case by (auto intro: same_frame_trans)
qed

lemma prepare_ep_still:
  assumes "prepare_ep c ti ei ts v = Inr ts'" and "(ti, ei) \<in> set (positions ts)"
    and "q \<in> set (positions ts)" and "q \<noteq> (ti, ei)"
    and "socket (ep_at ts q) = 0
         \<or> (\<forall>p \<in> set (nap_passes v). unreported (socket (ep_at ts q)) p \<and> in_time c (tvs (ep_at ts q)) p)"
  shows "ep_at ts' q = ep_at ts q"
  using assms(1,2)
proof (rule prepare_ep_effect)
  fix ts1
  assume n: "(if delay c \<noteq> 0 then nap c (nap_start v) ts (nap_passes v) else Inr ts) = Inr ts1"
    and p: "positions ts1 = positions ts"
    and r: "ts' = set_endpoint ts1 ti ei (issued v (ep_at ts1 (ti, ei)))"
  have "ep_at ts1 q = ep_at ts q"
  proof (cases "delay c = 0")
    case True
    then show ?thesis using n by simp
  next
    case False
    then have "nap c (nap_start v) ts (nap_passes v) = Inr ts1" using n by simp
    from nap_still [OF this assms(3,5)] show ?thesis .
  qed
  moreover have "ep_at ts' q = ep_at ts1 q"
    unfolding r using assms(2,3,4) p by (simp add: ep_at_set_endpoint)
  ultimately show ?thesis by simp
qed

lemma prepare_ep_tvs:
  assumes "prepare_ep c ti ei ts v = Inr ts'" and "(ti, ei) \<in> set (positions ts)"
    and "q \<in> set (positions ts)" and "q \<noteq> (ti, ei)"
  shows "tvs (ep_at ts' q) = tvs (ep_at ts q)"
  using assms(1,2)
proof (rule prepare_ep_effect)
  fix ts1
  assume n: "(if delay c \<noteq> 0 then nap c (nap_start v) ts (nap_passes v) else Inr ts) = Inr ts1"
    and p: "positions ts1 = positions ts"
    and r: "ts' = set_endpoint ts1 ti ei (issued v (ep_at ts1 (ti, ei)))"
  have "tvs (ep_at ts1 q) = tvs (ep_at ts q)"
  proof (cases "delay c = 0")
    case True
    then show ?thesis using n by simp
  next
    case False
    then have "nap c (nap_start v) ts (nap_passes v) = Inr ts1" using n by simp
    from nap_tvs [OF this assms(3)] show ?thesis .
  qed
  moreover have "ep_at ts' q = ep_at ts1 q"
    unfolding r using assms(2,3,4) p by (simp add: ep_at_set_endpoint)
  ultimately show ?thesis by simp
qed

lemma steps_still:
  assumes "steps c qs ts vs = Inr (ts', vs')" and "set qs \<subseteq> set (positions ts)"
    and "q \<in> set (positions ts)" and "q \<notin> set qs"
    and "socket (ep_at ts q) = 0
         \<or> (\<forall>j<length qs. \<forall>p \<in> set (nap_passes (vs ! j)).
               unreported (socket (ep_at ts q)) p \<and> in_time c (tvs (ep_at ts q)) p)"
  shows "ep_at ts' q = ep_at ts q"
  using assms
proof (induction qs arbitrary: ts vs)
  case Nil
  then show ?case by simp
next
  case (Cons q0 qs)
  from Cons.prems(1) obtain v vs1 ts1 where vs: "vs = v # vs1"
    and p: "prepare_ep c (fst q0) (snd q0) ts v = Inr ts1"
    and s: "steps c qs ts1 vs1 = Inr (ts', vs')"
    by (auto split: list.splits sum.splits)
  have q0: "(fst q0, snd q0) \<in> set (positions ts)" using Cons.prems(2) by simp
  have ne: "q \<noteq> (fst q0, snd q0)" using Cons.prems(4) by auto
  have h0: "socket (ep_at ts q) = 0
         \<or> (\<forall>p \<in> set (nap_passes v). unreported (socket (ep_at ts q)) p \<and> in_time c (tvs (ep_at ts q)) p)"
    using Cons.prems(5) vs by (auto dest: spec [of _ 0])
  have e: "ep_at ts1 q = ep_at ts q" by (rule prepare_ep_still [OF p q0 Cons.prems(3) ne h0])
  from p q0 have "same_frame ts ts1" by (rule prepare_ep_effect)
  then have ps: "positions ts1 = positions ts"
    by (intro same_shape_positions same_frame_shape)
  have h1: "socket (ep_at ts1 q) = 0
         \<or> (\<forall>j<length qs. \<forall>p \<in> set (nap_passes (vs1 ! j)).
               unreported (socket (ep_at ts1 q)) p \<and> in_time c (tvs (ep_at ts1 q)) p)"
  proof (cases "socket (ep_at ts q) = 0")
    case True
    then show ?thesis using e by simp
  next
    case False
    have "\<forall>j<length qs. \<forall>p \<in> set (nap_passes (vs1 ! j)).
               unreported (socket (ep_at ts q)) p \<and> in_time c (tvs (ep_at ts q)) p"
    proof (intro allI impI)
      fix j assume "j < length qs"
      then have "Suc j < length (q0 # qs)" by simp
      with Cons.prems(5) False
      have "\<forall>p \<in> set (nap_passes (vs ! Suc j)).
               unreported (socket (ep_at ts q)) p \<and> in_time c (tvs (ep_at ts q)) p" by blast
      then show "\<forall>p \<in> set (nap_passes (vs1 ! j)).
               unreported (socket (ep_at ts q)) p \<and> in_time c (tvs (ep_at ts q)) p"
        using vs by simp
    qed
    then show ?thesis using e by simp
  qed
  have "ep_at ts' q = ep_at ts1 q"
    using Cons.IH [OF s _ _ _ h1] Cons.prems(2,3,4) ps by simp
  then show ?case using e by simp
qed

lemma steps_tvs:
  assumes "steps c qs ts vs = Inr (ts', vs')" and "set qs \<subseteq> set (positions ts)"
    and "q \<in> set (positions ts)" and "q \<notin> set qs"
  shows "tvs (ep_at ts' q) = tvs (ep_at ts q)"
  using assms
proof (induction qs arbitrary: ts vs)
  case Nil
  then show ?case by simp
next
  case (Cons q0 qs)
  from Cons.prems(1) obtain v vs1 ts1 where vs: "vs = v # vs1"
    and p: "prepare_ep c (fst q0) (snd q0) ts v = Inr ts1"
    and s: "steps c qs ts1 vs1 = Inr (ts', vs')"
    by (auto split: list.splits sum.splits)
  have q0: "(fst q0, snd q0) \<in> set (positions ts)" using Cons.prems(2) by simp
  have ne: "q \<noteq> (fst q0, snd q0)" using Cons.prems(4) by auto
  have e: "tvs (ep_at ts1 q) = tvs (ep_at ts q)" by (rule prepare_ep_tvs [OF p q0 Cons.prems(3) ne])
  from p q0 have "same_frame ts ts1" by (rule prepare_ep_effect)
  then have ps: "positions ts1 = positions ts"
    by (intro same_shape_positions same_frame_shape)
  have "tvs (ep_at ts' q) = tvs (ep_at ts1 q)"
    using Cons.IH [OF s] Cons.prems(2,3,4) ps by simp
  then show ?case using e by simp
qed

lemma steps_nth:
  assumes "steps c qs ts vs = Inr (ts', vs')" and "set qs \<subseteq> set (positions ts)"
    and "i < length qs"
  obtains ta tb where
    "steps c (take i qs) ts vs = Inr (ta, drop i vs)"
    "prepare_ep c (fst (qs ! i)) (snd (qs ! i)) ta (vs ! i) = Inr tb"
    "steps c (drop (Suc i) qs) tb (drop (Suc i) vs) = Inr (ts', vs')"
    "same_frame ts ta" "same_frame ts tb" "i < length vs"
proof -
  have qs: "qs = take i qs @ qs ! i # drop (Suc i) qs"
    using assms(3) by (simp add: id_take_nth_drop)
  have "steps c (take i qs @ qs ! i # drop (Suc i) qs) ts vs = Inr (ts', vs')"
    using assms(1) qs by simp
  then obtain ta va where a: "steps c (take i qs) ts vs = Inr (ta, va)"
    and b: "steps c (qs ! i # drop (Suc i) qs) ta va = Inr (ts', vs')"
    by (auto simp: steps_append split: sum.splits)
  have sub: "set (take i qs) \<subseteq> set (positions ts)"
    using assms(2) by (auto dest: in_set_takeD)
  from steps_frame [OF a sub] assms(3)
  have fa: "same_frame ts ta" and va: "va = drop i vs" and li: "i \<le> length vs" by simp_all
  from b obtain v vs1 tb where v: "va = v # vs1"
    and p: "prepare_ep c (fst (qs ! i)) (snd (qs ! i)) ta v = Inr tb"
    and r: "steps c (drop (Suc i) qs) tb vs1 = Inr (ts', vs')"
    by (auto split: list.splits sum.splits)
  have lt: "i < length vs" using v va li by (cases "i = length vs") auto
  have vi: "v = vs ! i" "vs1 = drop (Suc i) vs"
    using v va lt by (simp_all add: Cons_nth_drop_Suc [symmetric])
  have pa: "positions ta = positions ts"
    by (intro same_shape_positions same_frame_shape fa)
  have "qs ! i \<in> set (positions ts)" using assms(2,3) nth_mem by blast
  then have "(fst (qs ! i), snd (qs ! i)) \<in> set (positions ta)" using pa by simp
  with p have "same_frame ta tb" by (rule prepare_ep_effect)
  then have fb: "same_frame ts tb" using fa by (rule same_frame_trans [rotated])
  show ?thesis using that a p r fa fb lt va vi by simp
qed

lemma expanded_valid:
  assumes "expanded ts" and "t < length ts"
  shows "target_valid (ts ! t)"
    and "e < length (endpoints (ts ! t)) \<Longrightarrow> endpoint_valid (endpoints (ts ! t) ! e)"
proof -
  have m: "ts ! t \<in> set ts" using assms(2) by simp
  with assms(1) show "target_valid (ts ! t)" by (simp add: expanded_def)
  assume "e < length (endpoints (ts ! t))"
  then have "endpoints (ts ! t) ! e \<in> set (endpoints (ts ! t))" by simp
  with assms(1) m show "endpoint_valid (endpoints (ts ! t) ! e)"
    unfolding expanded_def by blast
qed

lemma prepare_eps_steps:
  assumes "expanded ts" and "ti < length ts" and "ei + m = length (endpoints (ts ! ti))"
    and "prepare_eps c ti ei m ts vs = Inr (ts', vs')"
  shows "steps c (map (Pair ti) [ei..<ei + m]) ts vs = Inr (ts', vs')"
  using assms
proof (induction m arbitrary: ei ts vs)
  case 0
  then show ?case by simp
next
  case (Suc m)
  have ei: "ei < length (endpoints (ts ! ti))" using Suc.prems(3) by simp
  have val: "endpoint_valid (endpoints (ts ! ti) ! ei)"
    by (rule expanded_valid(2) [OF Suc.prems(1,2) ei])
  from Suc.prems(4) val obtain v vs1 ts1 where vs: "vs = v # vs1"
    and p: "prepare_ep c ti ei ts v = Inr ts1"
    and r: "prepare_eps c ti (Suc ei) m ts1 vs1 = Inr (ts', vs')"
    by (auto split: list.splits sum.splits)
  have q: "(ti, ei) \<in> set (positions ts)" using Suc.prems(2) ei by (simp add: set_positions)
  from p q have f: "same_frame ts ts1" by (rule prepare_ep_effect)
  have x1: "expanded ts1" by (rule same_frame_expanded [OF f Suc.prems(1)])
  have sh: "same_shape ts ts1" by (rule same_frame_shape [OF f])
  have l1: "ti < length ts1" "Suc ei + m = length (endpoints (ts1 ! ti))"
    using sh Suc.prems(2,3) by (simp_all add: same_shape_def)
  have "steps c (map (Pair ti) [Suc ei..<Suc ei + m]) ts1 vs1 = Inr (ts', vs')"
    by (rule Suc.IH [OF x1 l1 r])
  moreover have "[ei..<ei + Suc m] = ei # [Suc ei..<Suc ei + m]"
    by (simp add: upt_conv_Cons)
  ultimately show ?case using vs p by simp
qed

lemma prepare_tgts_steps:
  assumes "expanded ts" and "ti + m = length ts"
    and "prepare_tgts c ti m ts vs = Inr (ts', vs')"
  shows "steps c (concat (map (\<lambda>t. map (Pair t) [0..<length (endpoints (ts ! t))])
                      [ti..<ti + m])) ts vs = Inr (ts', vs')"
  using assms
proof (induction m arbitrary: ti ts vs)
  case 0
  then show ?case by simp
next
  case (Suc m)
  have ti: "ti < length ts" using Suc.prems(2) by simp
  have val: "target_valid (ts ! ti)" by (rule expanded_valid(1) [OF Suc.prems(1) ti])
  let ?here = "map (Pair ti) [0..<length (endpoints (ts ! ti))]"
  from Suc.prems(3) val obtain ts1 vs1 where
    e: "prepare_eps c ti 0 (length (endpoints (ts ! ti))) ts vs = Inr (ts1, vs1)"
    and r: "prepare_tgts c (Suc ti) m ts1 vs1 = Inr (ts', vs')"
    by (auto split: sum.splits)
  have s1: "steps c ?here ts vs = Inr (ts1, vs1)"
    using prepare_eps_steps [OF Suc.prems(1) ti _ e] by simp
  have "set ?here \<subseteq> set (positions ts)" using ti by (auto simp: set_positions)
  from steps_frame [OF s1 this] have f: "same_frame ts ts1" by simp
  have x1: "expanded ts1" by (rule same_frame_expanded [OF f Suc.prems(1)])
  have sh: "same_shape ts ts1" by (rule same_frame_shape [OF f])
  have l1: "Suc ti + m = length ts1" using sh Suc.prems(2) by (simp add: same_shape_def)
  have s2: "steps c (concat (map (\<lambda>t. map (Pair t) [0..<length (endpoints (ts1 ! t))])
                      [Suc ti..<Suc ti + m])) ts1 vs1 = Inr (ts', vs')"
    by (rule Suc.IH [OF x1 l1 r])
  have eq: "map (\<lambda>t. map (Pair t) [0..<length (endpoints (ts1 ! t))]) [Suc ti..<Suc ti + m]
          = map (\<lambda>t. map (Pair t) [0..<length (endpoints (ts ! t))]) [Suc ti..<Suc ti + m]"
    using sh l1 by (auto simp: same_shape_def)
  have s3: "steps c (concat (map (\<lambda>t. map (Pair t) [0..<length (endpoints (ts ! t))])
                      [Suc ti..<Suc ti + m])) ts1 vs1 = Inr (ts', vs')"
    using s2 by (simp only: eq)
  have u: "[ti..<ti + Suc m] = ti # [Suc ti..<Suc ti + m]" by (simp add: upt_conv_Cons)
  have "concat (map (\<lambda>t. map (Pair t) [0..<length (endpoints (ts ! t))]) [ti..<ti + Suc m])
      = ?here @ concat (map (\<lambda>t. map (Pair t) [0..<length (endpoints (ts ! t))])
                      [Suc ti..<Suc ti + m])"
    by (simp only: u list.map concat.simps)
  then show ?case using s1 s3 by (simp only: steps_append sum.case prod.case)
qed

lemma prepare_steps:
  assumes "expanded ts" and "prepare c ts vs = Inr ts'"
  shows "\<exists>vs'. steps c (positions ts) ts vs = Inr (ts', vs')"
proof (cases ts)
  case Nil
  then show ?thesis using assms(2) by (simp add: prepare_def)
next
  case (Cons tp tps)
  then have "num_endpoints tp \<noteq> 0" using assms(1) by (simp add: expanded_def)
  then obtain vs' where "prepare_tgts c 0 (length ts) ts vs = Inr (ts', vs')"
    using assms(2) Cons by (cases "prepare_tgts c 0 (length ts) ts vs") (auto simp: prepare_def)
  from prepare_tgts_steps [OF assms(1) _ this] show ?thesis by (auto simp: positions_def)
qed

text \<open>What the order of the clock readings gives.\<close>

lemma sorted_concat_nth:
  fixes xss :: "int list list"
  assumes "sorted (concat xss)" and "i < j" and "j < length xss"
    and "x \<in> set (xss ! i)" and "y \<in> set (xss ! j)"
  shows "x \<le> y"
  using assms
proof (induction xss arbitrary: i j)
  case Nil
  then show ?case by simp
next
  case (Cons xs xss)
  from Cons.prems(2,3) obtain j' where j: "j = Suc j'" "j' < length xss" by (cases j) auto
  have s: "sorted xs" "sorted (concat xss)" "\<forall>a \<in> set xs. \<forall>b \<in> set (concat xss). a \<le> b"
    using Cons.prems(1) by (auto simp: sorted_append)
  show ?case
  proof (cases i)
    case 0
    have "xss ! j' \<in> set xss" using j by simp
    then have "y \<in> set (concat xss)" using Cons.prems(5) j by auto
    moreover have "x \<in> set xs" using Cons.prems(4) 0 by simp
    ultimately show ?thesis using s(3) by blast
  next
    case (Suc i')
    from Cons.IH [OF s(2), of i' j'] Cons.prems(2,4,5) j Suc show ?thesis by simp
  qed
qed

lemma sorted_concat_part:
  fixes xss :: "int list list"
  shows "sorted (concat xss) \<Longrightarrow> xs \<in> set xss \<Longrightarrow> sorted xs"
  by (induction xss) (auto simp: sorted_append)

lemma clock_visit:
  assumes "clock_ok vs" and "i < length vs"
  shows "normal (nap_start (vs ! i))"
    and "p \<in> set (nap_passes (vs ! i)) \<Longrightarrow> normal (now p)"
    and "p \<in> set (nap_passes (vs ! i)) \<Longrightarrow> issues (vs ! i) \<Longrightarrow>
         usec_of (now p) \<le> usec_of (started (vs ! i))"
proof -
  let ?v = "vs ! i"
  have m: "?v \<in> set vs" using assms(2) by simp
  have n: "\<forall>tv \<in> set (readings ?v). normal tv"
    using assms(1) m unfolding clock_ok_def by auto
  show "normal (nap_start ?v)" using n by (simp add: readings_def)
  have "sorted (concat (map (\<lambda>v. map usec_of (readings v)) vs))"
    using assms(1) by (simp add: clock_ok_def map_concat comp_def)
  moreover have "map usec_of (readings ?v) \<in> set (map (\<lambda>v. map usec_of (readings v)) vs)"
    using m by simp
  ultimately have s: "sorted (map usec_of (readings ?v))" by (rule sorted_concat_part)
  assume p: "p \<in> set (nap_passes ?v)"
  then have r: "now p \<in> set (concat (map (\<lambda>p. [now p, upd_now p]) (nap_passes ?v)))" by auto
  then show "normal (now p)" using n by (simp add: readings_def)
  assume "issues ?v"
  then have "sorted (usec_of (nap_start ?v)
      # map usec_of (concat (map (\<lambda>p. [now p, upd_now p]) (nap_passes ?v)))
      @ [usec_of (started ?v)])"
    using s by (simp add: readings_def)
  then show "usec_of (now p) \<le> usec_of (started ?v)"
    using r by (simp add: sorted_append del: set_concat)
qed

lemma clock_order:
  assumes "clock_ok vs" and "i < j" and "j < length vs" and "issues (vs ! i)"
  shows "usec_of (started (vs ! i)) \<le> usec_of (nap_start (vs ! j))"
proof -
  let ?xss = "map (\<lambda>v. map usec_of (readings v)) vs"
  have s: "sorted (concat ?xss)"
    using assms(1) by (simp add: clock_ok_def map_concat comp_def)
  have "usec_of (started (vs ! i)) \<in> set (?xss ! i)"
    using assms(2,3,4) by (simp add: readings_def)
  moreover have "usec_of (nap_start (vs ! j)) \<in> set (?xss ! j)"
    using assms(3) by (simp add: readings_def)
  ultimately show ?thesis using sorted_concat_nth [OF s assms(2)] assms(3) by simp
qed

lemma nap_exit:
  assumes "nap c dts ts ps = Inr ts'" and "0 \<le> delay c" and "normal dts"
    and "\<forall>p \<in> set ps. normal (now p)"
  shows "\<exists>p \<in> set ps. delay c * 1000 < usec_of (now p) - usec_of dts"
  using assms(1,4)
proof (induction ps arbitrary: ts)
  case Nil
  then show ?case by simp
next
  case (Cons p ps)
  have np: "normal (now p)" using Cons.prems(2) by simp
  note t = nap_exit_test [OF assms(2,3) np]
  from Cons.prems(1) show ?case
  proof (cases rule: nap_Inr_cases)
    case over
    then show ?thesis using t by auto
  next
    case (pass ready ts1)
    from Cons.IH [OF pass(4)] Cons.prems(2) show ?thesis by auto
  qed
qed

text \<open>One pass through the loop body inside the run, and what it does to an endpoint.\<close>

lemma distinct_nth_apart:
  assumes "distinct qs" and "i < length qs"
  shows "qs ! i \<notin> set (take i qs)" and "qs ! i \<notin> set (drop (Suc i) qs)"
proof -
  have "distinct (take i qs @ qs ! i # drop (Suc i) qs)"
    using assms by (simp add: id_take_nth_drop [symmetric])
  then show "qs ! i \<notin> set (take i qs)" and "qs ! i \<notin> set (drop (Suc i) qs)" by auto
qed

lemma steps_visit:
  assumes "steps c qs ts vs = Inr (ts', vs')" and "set qs \<subseteq> set (positions ts)"
    and "i < length qs"
  obtains ta t1 tb where
    "steps c (take i qs) ts vs = Inr (ta, drop i vs)"
    "(if delay c \<noteq> 0 then nap c (nap_start (vs ! i)) ta (nap_passes (vs ! i)) else Inr ta) = Inr t1"
    "tb = set_endpoint t1 (fst (qs ! i)) (snd (qs ! i)) (issued (vs ! i) (ep_at t1 (qs ! i)))"
    "steps c (drop (Suc i) qs) tb (drop (Suc i) vs) = Inr (ts', vs')"
    "same_frame ts ta" "same_frame ts t1" "same_frame ts tb" "i < length vs"
  using assms
proof (rule steps_nth)
  fix ta tb
  assume a: "steps c (take i qs) ts vs = Inr (ta, drop i vs)"
    and p: "prepare_ep c (fst (qs ! i)) (snd (qs ! i)) ta (vs ! i) = Inr tb"
    and r: "steps c (drop (Suc i) qs) tb (drop (Suc i) vs) = Inr (ts', vs')"
    and fa: "same_frame ts ta" and fb: "same_frame ts tb" and lt: "i < length vs"
  have pa: "positions ta = positions ts"
    by (intro same_shape_positions same_frame_shape fa)
  have "qs ! i \<in> set (positions ts)" using assms(2,3) nth_mem by blast
  then have q: "(fst (qs ! i), snd (qs ! i)) \<in> set (positions ta)" using pa by simp
  from p q show thesis
  proof (rule prepare_ep_effect)
    fix t1
    assume n: "(if delay c \<noteq> 0 then nap c (nap_start (vs ! i)) ta (nap_passes (vs ! i))
                else Inr ta) = Inr t1"
      and f1: "same_frame ta t1"
      and e: "tb = set_endpoint t1 (fst (qs ! i)) (snd (qs ! i))
                     (issued (vs ! i) (ep_at t1 (fst (qs ! i), snd (qs ! i))))"
    have "same_frame ts t1" using fa f1 by (rule same_frame_trans)
    then show thesis using that a n e r fa fb lt by simp
  qed
qed

lemma steps_tvs_started:
  assumes "steps c qs ts vs = Inr (ts', vs')" and "set qs \<subseteq> set (positions ts)"
    and "distinct qs" and "i < length qs" and "issues (vs ! i)"
  shows "tvs (ep_at ts' (qs ! i)) = started (vs ! i)"
  using assms(1,2,4)
proof (rule steps_visit)
  fix ta t1 tb
  assume e: "tb = set_endpoint t1 (fst (qs ! i)) (snd (qs ! i)) (issued (vs ! i) (ep_at t1 (qs ! i)))"
    and r: "steps c (drop (Suc i) qs) tb (drop (Suc i) vs) = Inr (ts', vs')"
    and f1: "same_frame ts t1" and fb: "same_frame ts tb"
  have p1: "positions t1 = positions ts" "positions tb = positions ts"
    by (intro same_shape_positions same_frame_shape f1 fb)+
  have q: "qs ! i \<in> set (positions ts)" using assms(2,4) nth_mem by blast
  then have "(fst (qs ! i), snd (qs ! i)) \<in> set (positions t1)" using p1 by simp
  then have "ep_at tb (qs ! i) = issued (vs ! i) (ep_at t1 (qs ! i))"
    unfolding e using ep_at_set_endpoint [of "fst (qs ! i)" "snd (qs ! i)" t1 "qs ! i"] by simp
  then have "tvs (ep_at tb (qs ! i)) = started (vs ! i)" using assms(5) by (simp add: issued_tvs)
  moreover have "tvs (ep_at ts' (qs ! i)) = tvs (ep_at tb (qs ! i))"
  proof (rule steps_tvs [OF r])
    show "set (drop (Suc i) qs) \<subseteq> set (positions tb)"
      using assms(2) p1 by (auto dest: in_set_dropD)
    show "qs ! i \<in> set (positions tb)" using q p1 by simp
    show "qs ! i \<notin> set (drop (Suc i) qs)" by (rule distinct_nth_apart(2) [OF assms(3,4)])
  qed
  ultimately show ?thesis by simp
qed

lemma steps_nap_exit:
  assumes "steps c qs ts vs = Inr (ts', vs')" and "set qs \<subseteq> set (positions ts)"
    and "i < length qs" and "0 < delay c" and "clock_ok vs"
  shows "\<exists>p \<in> set (nap_passes (vs ! i)).
           delay c * 1000 < usec_of (now p) - usec_of (nap_start (vs ! i))"
  using assms(1,2,3)
proof (rule steps_visit)
  fix ta t1
  assume n: "(if delay c \<noteq> 0 then nap c (nap_start (vs ! i)) ta (nap_passes (vs ! i))
              else Inr ta) = Inr t1"
    and lt: "i < length vs"
  have "nap c (nap_start (vs ! i)) ta (nap_passes (vs ! i)) = Inr t1" using n assms(4) by simp
  then show ?thesis
  proof (rule nap_exit)
    show "0 \<le> delay c" using assms(4) by simp
    show "normal (nap_start (vs ! i))" by (rule clock_visit(1) [OF assms(5) lt])
    show "\<forall>p \<in> set (nap_passes (vs ! i)). normal (now p)"
      using clock_visit(2) [OF assms(5) lt] by blast
  qed
qed

lemma steps_completion:
  assumes s: "steps c qs ts vs = Inr (ts', vs')" and sub: "set qs \<subseteq> set (positions ts)"
    and x: "expanded ts" and q: "q \<in> set (positions ts)" and nq: "q \<notin> set qs"
    and d: "0 < delay c" and pend: "socket (ep_at ts q) \<noteq> 0" and i: "i < length qs"
    and n0: "normal (nap_start (vs ! i))"
    and n1: "\<forall>p \<in> set (nap_passes (vs ! i)). normal (now p)"
    and before:
      "\<forall>l<i. \<forall>p \<in> set (nap_passes (vs ! l)).
          unreported (socket (ep_at ts q)) p \<and> in_time c (tvs (ep_at ts q)) p"
    and k: "k < length (nap_passes (vs ! i))"
    and quiet:
      "\<forall>j<k. unreported (socket (ep_at ts q)) (nap_passes (vs ! i) ! j)
            \<and> in_time c (tvs (ep_at ts q)) (nap_passes (vs ! i) ! j)"
    and running:
      "\<forall>j\<le>k. usec_of (now (nap_passes (vs ! i) ! j)) - usec_of (nap_start (vs ! i))
            \<le> delay c * 1000"
    and rep: "reported (socket (ep_at ts q)) (nap_passes (vs ! i) ! k)"
    and it: "in_time c (tvs (ep_at ts q)) (nap_passes (vs ! i) ! k)"
    and gso: "upd_gso (nap_passes (vs ! i) ! k) (socket (ep_at ts q)) = Some err"
  shows "ep_at ts' q =
           finalized (ep_at ts q) (elapsed_us (upd_now (nap_passes (vs ! i) ! k)) (tvs (ep_at ts q))) err"
  using s sub i
proof (rule steps_visit)
  fix ta t1 tb
  let ?ps = "nap_passes (vs ! i)"
  assume a: "steps c (take i qs) ts vs = Inr (ta, drop i vs)"
    and n: "(if delay c \<noteq> 0 then nap c (nap_start (vs ! i)) ta ?ps else Inr ta) = Inr t1"
    and e: "tb = set_endpoint t1 (fst (qs ! i)) (snd (qs ! i)) (issued (vs ! i) (ep_at t1 (qs ! i)))"
    and r: "steps c (drop (Suc i) qs) tb (drop (Suc i) vs) = Inr (ts', vs')"
    and fa: "same_frame ts ta" and f1: "same_frame ts t1" and fb: "same_frame ts tb"
  have pa: "positions ta = positions ts" and p1: "positions t1 = positions ts"
    and pb: "positions tb = positions ts"
    by (intro same_shape_positions same_frame_shape fa f1 fb)+
  have ea: "ep_at ta q = ep_at ts q"
  proof (rule steps_still [OF a _ q])
    show "set (take i qs) \<subseteq> set (positions ts)" using sub by (auto dest: in_set_takeD)
    show "q \<notin> set (take i qs)" using nq by (auto dest: in_set_takeD)
    show "socket (ep_at ts q) = 0
         \<or> (\<forall>j<length (take i qs). \<forall>p \<in> set (nap_passes (vs ! j)).
               unreported (socket (ep_at ts q)) p \<and> in_time c (tvs (ep_at ts q)) p)"
      using before by auto
  qed
  have nap: "nap c (nap_start (vs ! i)) ta ?ps = Inr t1" using n d by simp
  have run': "\<forall>j\<le>k. \<not> timercmp_lt (delay_tv c) (timersub (now (?ps ! j)) (nap_start (vs ! i)))"
  proof (intro allI impI)
    fix j assume j: "j \<le> k"
    then have "?ps ! j \<in> set ?ps" using k by simp
    then have "normal (now (?ps ! j))" using n1 by blast
    from nap_exit_test [OF _ n0 this, of c] d running j
    show "\<not> timercmp_lt (delay_tv c) (timersub (now (?ps ! j)) (nap_start (vs ! i)))"
      by (simp add: not_less)
  qed
  have e1: "ep_at t1 q = finalized (ep_at ts q) (elapsed_us (upd_now (?ps ! k)) (tvs (ep_at ts q))) err"
    using nap_finalizes [OF nap same_frame_expanded [OF fa x], of q k err]
      q pa ea pend k quiet run' rep it gso
    by (simp add: finalized_def)
  have qi: "qs ! i \<in> set (positions ts)" using sub i nth_mem by blast
  have "q \<noteq> qs ! i" using nq i by auto
  then have eb: "ep_at tb q = ep_at t1 q"
    unfolding e using ep_at_set_endpoint [of "fst (qs ! i)" "snd (qs ! i)" t1 q] qi q p1 by simp
  have "ep_at ts' q = ep_at tb q"
  proof (rule steps_still [OF r])
    show "set (drop (Suc i) qs) \<subseteq> set (positions tb)"
      using sub pb by (auto dest: in_set_dropD)
    show "q \<in> set (positions tb)" using q pb by simp
    show "q \<notin> set (drop (Suc i) qs)" using nq by (auto dest: in_set_dropD)
    have "socket (ep_at tb q) = 0" using eb e1 by (simp add: finalized_def finalized_socket)
    then show "socket (ep_at tb q) = 0
       \<or> (\<forall>j<length (drop (Suc i) qs). \<forall>p \<in> set (nap_passes (drop (Suc i) vs ! j)).
               unreported (socket (ep_at tb q)) p \<and> in_time c (tvs (ep_at tb q)) p)"
      by simp
  qed
  then show ?thesis using eb e1 by simp
qed

lemma length_positions: "length (positions ts) = length (flat ts)"
  by (simp add: flat_positions)

lemma flat_nth: "i < length (flat ts) \<Longrightarrow> flat ts ! i = ep_at ts (positions ts ! i)"
  by (simp add: flat_positions)

lemma prepare_paced:
  assumes "prepare c ts vs = Inr ts'" and "0 < delay c" and "expanded ts" and "clock_ok vs"
    and "i < j" and "j < length (flat ts)" and "issues (vs ! i)" and "issues (vs ! j)"
  shows "tvs (flat ts' ! i) = started (vs ! i) \<and> tvs (flat ts' ! j) = started (vs ! j)
      \<and> delay c * 1000 < usec_of (started (vs ! j)) - usec_of (started (vs ! i))"
proof -
  let ?qs = "positions ts"
  from prepare_steps [OF assms(3,1)] obtain vs' where
    s: "steps c ?qs ts vs = Inr (ts', vs')" by blast
  from steps_frame [OF s] have f: "same_frame ts ts'" and l: "length ?qs \<le> length vs"
    by simp_all
  have p: "positions ts' = ?qs" by (intro same_shape_positions same_frame_shape f)
  have i: "i < length ?qs" and j: "j < length ?qs"
    using assms(5,6) by (simp_all add: length_positions)
  have fi: "flat ts' ! i = ep_at ts' (?qs ! i)" and fj: "flat ts' ! j = ep_at ts' (?qs ! j)"
    using flat_nth [of i ts'] flat_nth [of j ts'] i j p length_positions [of ts'] by simp_all
  have ti: "tvs (ep_at ts' (?qs ! i)) = started (vs ! i)"
    by (rule steps_tvs_started [OF s _ distinct_positions i assms(7)]) simp
  have tj: "tvs (ep_at ts' (?qs ! j)) = started (vs ! j)"
    by (rule steps_tvs_started [OF s _ distinct_positions j assms(8)]) simp
  have jv: "j < length vs" using j l by simp
  from steps_nap_exit [OF s _ j assms(2,4)] obtain p where p: "p \<in> set (nap_passes (vs ! j))"
    and g: "delay c * 1000 < usec_of (now p) - usec_of (nap_start (vs ! j))" by auto
  have "usec_of (now p) \<le> usec_of (started (vs ! j))"
    by (rule clock_visit(3) [OF assms(4) jv p assms(8)])
  moreover have "usec_of (started (vs ! i)) \<le> usec_of (nap_start (vs ! j))"
    by (rule clock_order [OF assms(4,5) jv assms(7)])
  ultimately have "delay c * 1000 < usec_of (started (vs ! j)) - usec_of (started (vs ! i))"
    using g by linarith
  then show ?thesis using ti tj fi fj by simp
qed

lemma prepare_drains:
  assumes "prepare c ts vs = Inr ts'" and "0 < delay c" and "expanded ts" and "clock_ok vs"
    and m: "m < length (flat ts)" and idle: "socket (flat ts ! h) = 0"
    and cm: "completes c vs h m k err"
  shows "flat ts' ! h =
           finalized ((flat ts ! h)\<lparr>socket := fst (sock (vs ! h)), tvs := started (vs ! h)\<rparr>)
             (elapsed_us (upd_now (nap_passes (vs ! m) ! k)) (started (vs ! h))) err"
proof -
  let ?qs = "positions ts" and ?s = "fst (sock (vs ! h))" and ?t0 = "started (vs ! h)"
  let ?ps = "nap_passes (vs ! m)"
  let ?q = "?qs ! h"
  let ?ep = "(flat ts ! h)\<lparr>socket := ?s, tvs := ?t0\<rparr>"
  have hm: "h < m" and iss: "issues (vs ! h)" and s0: "?s \<noteq> 0" and k: "k < length ?ps"
    and mid: "\<forall>l. h < l \<and> l < m \<longrightarrow>
               (\<forall>p \<in> set (nap_passes (vs ! l)). unreported ?s p \<and> in_time c ?t0 p)"
    and quiet: "\<forall>j<k. unreported ?s (?ps ! j) \<and> in_time c ?t0 (?ps ! j)"
    and running: "\<forall>j\<le>k. usec_of (now (?ps ! j)) - usec_of (nap_start (vs ! m)) \<le> delay c * 1000"
    and rep: "reported ?s (?ps ! k)" and it: "in_time c ?t0 (?ps ! k)"
    and gso: "upd_gso (?ps ! k) ?s = Some err"
    using cm unfolding completes_def Let_def by blast+
  from prepare_steps [OF assms(3,1)] obtain vs' where
    s: "steps c ?qs ts vs = Inr (ts', vs')" by blast
  from steps_frame [OF s] have f: "same_frame ts ts'" and l: "length ?qs \<le> length vs"
    by simp_all
  have p: "positions ts' = ?qs" by (intro same_shape_positions same_frame_shape f)
  have mq: "m < length ?qs" and hq: "h < length ?qs"
    using m hm by (simp_all add: length_positions)
  have mv: "m < length vs" using mq l by simp
  have fh: "flat ts' ! h = ep_at ts' ?q"
    using flat_nth [of h ts'] hq p length_positions [of ts'] by simp
  have fh0: "flat ts ! h = ep_at ts ?q" using flat_nth [of h ts] hq length_positions [of ts] by simp
  have qin: "?q \<in> set ?qs" using hq by simp
  from s _ hq show ?thesis
  proof (rule steps_visit)
    show "set ?qs \<subseteq> set ?qs" by simp
  next
    fix ta t1 tb
    assume a: "steps c (take h ?qs) ts vs = Inr (ta, drop h vs)"
      and n: "(if delay c \<noteq> 0 then nap c (nap_start (vs ! h)) ta (nap_passes (vs ! h))
               else Inr ta) = Inr t1"
      and e: "tb = set_endpoint t1 (fst ?q) (snd ?q) (issued (vs ! h) (ep_at t1 ?q))"
      and r: "steps c (drop (Suc h) ?qs) tb (drop (Suc h) vs) = Inr (ts', vs')"
      and fa: "same_frame ts ta" and f1: "same_frame ts t1" and fb: "same_frame ts tb"
      and hv: "h < length vs"
    have pa: "positions ta = ?qs" and p1: "positions t1 = ?qs" and pb: "positions tb = ?qs"
      by (intro same_shape_positions same_frame_shape fa f1 fb)+
    have ea: "ep_at ta ?q = ep_at ts ?q"
    proof (rule steps_still [OF a _ qin])
      show "set (take h ?qs) \<subseteq> set ?qs" by (auto dest: in_set_takeD)
      show "?q \<notin> set (take h ?qs)" by (rule distinct_nth_apart(1) [OF distinct_positions hq])
      show "socket (ep_at ts ?q) = 0
         \<or> (\<forall>j<length (take h ?qs). \<forall>p \<in> set (nap_passes (vs ! j)).
               unreported (socket (ep_at ts ?q)) p \<and> in_time c (tvs (ep_at ts ?q)) p)"
        using idle fh0 by simp
    qed
    have "nap c (nap_start (vs ! h)) ta (nap_passes (vs ! h)) = Inr t1" using n assms(2) by simp
    then have "ep_at t1 ?q = ep_at ta ?q"
      by (rule nap_still) (use qin pa ea idle fh0 in simp_all)
    moreover have "ep_at tb ?q = issued (vs ! h) (ep_at t1 ?q)"
      unfolding e using ep_at_set_endpoint [of "fst ?q" "snd ?q" t1 ?q] qin p1 by simp
    ultimately have eb: "ep_at tb ?q = ?ep" using ea fh0 iss by (simp add: issued_tvs)
    let ?i = "m - Suc h"
    have vi: "drop (Suc h) vs ! ?i = vs ! m" using hm mv by simp
    have "ep_at ts' ?q =
        finalized (ep_at tb ?q)
          (elapsed_us (upd_now (nap_passes (drop (Suc h) vs ! ?i) ! k)) (tvs (ep_at tb ?q))) err"
    proof (rule steps_completion [OF r _ _ _ _ assms(2)])
      show "set (drop (Suc h) ?qs) \<subseteq> set (positions tb)"
        using pb by (auto dest: in_set_dropD)
      show "expanded tb" by (rule same_frame_expanded [OF fb assms(3)])
      show "?q \<in> set (positions tb)" using qin pb by simp
      show "?q \<notin> set (drop (Suc h) ?qs)"
        by (rule distinct_nth_apart(2) [OF distinct_positions hq])
      show "socket (ep_at tb ?q) \<noteq> 0" using eb s0 by simp
      show "?i < length (drop (Suc h) ?qs)" using hm mq by simp
      show "normal (nap_start (drop (Suc h) vs ! ?i))"
        unfolding vi by (rule clock_visit(1) [OF assms(4) mv])
      show "\<forall>p \<in> set (nap_passes (drop (Suc h) vs ! ?i)). normal (now p)"
        unfolding vi using clock_visit(2) [OF assms(4) mv] by blast
      show "\<forall>l<?i. \<forall>p \<in> set (nap_passes (drop (Suc h) vs ! l)).
          unreported (socket (ep_at tb ?q)) p \<and> in_time c (tvs (ep_at tb ?q)) p"
      proof (intro allI impI)
        fix l assume "l < ?i"
        then have "h < Suc h + l \<and> Suc h + l < m" by simp
        with mid have "\<forall>p \<in> set (nap_passes (vs ! (Suc h + l))). unreported ?s p \<and> in_time c ?t0 p"
          by blast
        moreover have "drop (Suc h) vs ! l = vs ! (Suc h + l)" using hv by simp
        ultimately show "\<forall>p \<in> set (nap_passes (drop (Suc h) vs ! l)).
          unreported (socket (ep_at tb ?q)) p \<and> in_time c (tvs (ep_at tb ?q)) p"
          using eb by simp
      qed
      show "k < length (nap_passes (drop (Suc h) vs ! ?i))" unfolding vi by (rule k)
      show "\<forall>j<k. unreported (socket (ep_at tb ?q)) (nap_passes (drop (Suc h) vs ! ?i) ! j)
            \<and> in_time c (tvs (ep_at tb ?q)) (nap_passes (drop (Suc h) vs ! ?i) ! j)"
        unfolding vi using quiet eb by simp
      show "\<forall>j\<le>k. usec_of (now (nap_passes (drop (Suc h) vs ! ?i) ! j))
                 - usec_of (nap_start (drop (Suc h) vs ! ?i)) \<le> delay c * 1000"
        unfolding vi by (rule running)
      show "reported (socket (ep_at tb ?q)) (nap_passes (drop (Suc h) vs ! ?i) ! k)"
        unfolding vi using rep eb by simp
      show "in_time c (tvs (ep_at tb ?q)) (nap_passes (drop (Suc h) vs ! ?i) ! k)"
        unfolding vi using it eb by simp
      show "upd_gso (nap_passes (drop (Suc h) vs ! ?i) ! k) (socket (ep_at tb ?q)) = Some err"
        unfolding vi using gso eb by simp
    qed
    then show ?thesis unfolding vi using eb fh by simp
  qed
qed

text \<open>
  C8. One call of \<open>prepare\<close> (one round) with a delay that is not zero, on targets as
  \<open>expand\<close> builds them, with clock readings that never go back. For any two endpoints
  for which a connect is issued, the times stored in \<open>tvs\<close> are the readings taken
  right after the two connects, and the later one is more than \<open>delay\<close> milliseconds
  after the earlier one. Every pass through the loop body leaves its nap, and so reaches
  \<open>socket\<close>, only at a reading more than \<open>delay\<close> milliseconds after the reading
  \<open>dts\<close> with which it began. And the nap keeps collecting: when \<open>select\<close> reports
  the socket of an earlier connect in a pass of a later nap, for the first time, before
  that nap is over and before the timeout, the \<open>update\<close> of that very pass finalizes
  the attempt; the endpoint leaves \<open>prepare\<close> with no connect pending and with the
  sample measured from \<open>tvs\<close> to the reading that \<open>update\<close> takes right after
  \<open>select\<close> returns.
\<close>

theorem issuances_paced_and_drained:
  assumes "prepare c ts vs = Inr ts'" and "0 < delay c" and "expanded ts" and "clock_ok vs"
  shows "(\<forall>i j. i < j \<and> j < length (flat ts) \<and> issues (vs ! i) \<and> issues (vs ! j) \<longrightarrow>
            tvs (flat ts' ! i) = started (vs ! i) \<and> tvs (flat ts' ! j) = started (vs ! j)
            \<and> delay c * 1000 < usec_of (tvs (flat ts' ! j)) - usec_of (tvs (flat ts' ! i)))
       \<and> (\<forall>j < length (flat ts). \<exists>p \<in> set (nap_passes (vs ! j)).
            delay c * 1000 < usec_of (now p) - usec_of (nap_start (vs ! j)))
       \<and> (\<forall>h m k err. m < length (flat ts) \<and> socket (flat ts ! h) = 0
              \<and> completes c vs h m k err \<longrightarrow>
            flat ts' ! h =
              finalized ((flat ts ! h)\<lparr>socket := fst (sock (vs ! h)), tvs := started (vs ! h)\<rparr>)
                (elapsed_us (upd_now (nap_passes (vs ! m) ! k)) (started (vs ! h))) err)"
proof (intro conjI allI impI)
  fix i j
  assume "i < j \<and> j < length (flat ts) \<and> issues (vs ! i) \<and> issues (vs ! j)"
  then have a: "i < j" "j < length (flat ts)" "issues (vs ! i)" "issues (vs ! j)" by simp_all
  from prepare_paced [OF assms a]
  show "tvs (flat ts' ! i) = started (vs ! i)" and "tvs (flat ts' ! j) = started (vs ! j)"
    and "delay c * 1000 < usec_of (tvs (flat ts' ! j)) - usec_of (tvs (flat ts' ! i))"
    by simp_all
next
  fix j assume j: "j < length (flat ts)"
  from prepare_steps [OF assms(3,1)] obtain vs' where
    s: "steps c (positions ts) ts vs = Inr (ts', vs')" by blast
  have "j < length (positions ts)" using j by (simp add: length_positions)
  from steps_nap_exit [OF s _ this assms(2,4)]
  show "\<exists>p \<in> set (nap_passes (vs ! j)).
            delay c * 1000 < usec_of (now p) - usec_of (nap_start (vs ! j))" by simp
next
  fix h m k err
  assume "m < length (flat ts) \<and> socket (flat ts ! h) = 0 \<and> completes c vs h m k err"
  then have b: "m < length (flat ts)" "socket (flat ts ! h) = 0" "completes c vs h m k err"
    by simp_all
  from prepare_drains [OF assms b]
  show "flat ts' ! h =
              finalized ((flat ts ! h)\<lparr>socket := fst (sock (vs ! h)), tvs := started (vs ! h)\<rparr>)
                (elapsed_us (upd_now (nap_passes (vs ! m) ! k)) (started (vs ! h))) err" .
qed

text \<open>
  The run of two endpoints: the connects are issued at 25200 and at 50500, 25.3 ms
  apart, and the first one, complete after 1234 microseconds, is finalized in the first
  pass of the nap for the second.
\<close>

lemma two_visits_run: "prepare default_cfg two_eps two_visits = Inr two_eps_after"
  by code_simp

lemma two_visits_clock: "clock_ok two_visits"
  by (simp add: clock_ok_def two_visits_def readings_def issues_def normal_def usec_of_def
      at_us_def)

lemma two_eps_expanded: "expanded two_eps"
  by (simp add: expanded_def two_eps_def tgt_of_def target_valid_def endpoint_valid_def
      new_endpoint_def ai0_def)

lemma two_visits_completes: "completes default_cfg two_visits 0 1 0 0"
  by (simp add: completes_def two_visits_def issues_def reported_def sel_ready_def in_time_def
      elapsed_us_def timersub_def at_us_def usec_of_def gso_ok_def default_cfg_def
      initial_state_def)

theorem issuances_paced_and_drained_witness:
  "prepare default_cfg two_eps two_visits = Inr two_eps_after
   \<and> 0 < delay default_cfg \<and> expanded two_eps \<and> clock_ok two_visits
   \<and> length (flat two_eps) = 2 \<and> issues (two_visits ! 0) \<and> issues (two_visits ! 1)
   \<and> tvs (flat two_eps_after ! 0) = at_us 25200 \<and> tvs (flat two_eps_after ! 1) = at_us 50500
   \<and> delay default_cfg * 1000
       < usec_of (tvs (flat two_eps_after ! 1)) - usec_of (tvs (flat two_eps_after ! 0))
   \<and> (\<exists>p. p \<in> set (nap_passes (two_visits ! 1))
         \<and> delay default_cfg * 1000 < usec_of (now p) - usec_of (nap_start (two_visits ! 1)))
   \<and> socket (flat two_eps ! 0) = 0 \<and> completes default_cfg two_visits 0 1 0 0
   \<and> flat two_eps_after ! 0
       = finalized ((flat two_eps ! 0)\<lparr>socket := 3, tvs := at_us 25200\<rparr>) 1234 0"
proof -
  have d: "0 < delay default_cfg" by (simp add: default_cfg_def initial_state_def)
  have n: "length (flat two_eps) = 2" by (simp add: flat_def two_eps_def tgt_of_def)
  have i: "issues (two_visits ! 0)" "issues (two_visits ! 1)"
    by (simp_all add: two_visits_def issues_def)
  have z: "socket (flat two_eps ! 0) = 0"
    by (simp add: flat_def two_eps_def tgt_of_def new_endpoint_def)
  have v: "started (two_visits ! 0) = at_us 25200" "started (two_visits ! 1) = at_us 50500"
    "fst (sock (two_visits ! 0)) = 3"
    "elapsed_us (upd_now (nap_passes (two_visits ! 1) ! 0)) (started (two_visits ! 0)) = 1234"
    by (simp_all add: two_visits_def elapsed_us_def timersub_def at_us_def)
  note t = issuances_paced_and_drained [OF two_visits_run d two_eps_expanded two_visits_clock]
  from t have "0 < (1 :: nat) \<and> 1 < length (flat two_eps) \<and> issues (two_visits ! 0)
      \<and> issues (two_visits ! 1) \<longrightarrow>
    tvs (flat two_eps_after ! 0) = started (two_visits ! 0)
    \<and> tvs (flat two_eps_after ! 1) = started (two_visits ! 1)
    \<and> delay default_cfg * 1000
       < usec_of (tvs (flat two_eps_after ! 1)) - usec_of (tvs (flat two_eps_after ! 0))"
    by blast
  moreover have "0 < (1 :: nat) \<and> 1 < length (flat two_eps) \<and> issues (two_visits ! 0)
      \<and> issues (two_visits ! 1)"
    using n i by simp
  ultimately have r: "tvs (flat two_eps_after ! 0) = started (two_visits ! 0)
    \<and> tvs (flat two_eps_after ! 1) = started (two_visits ! 1)
    \<and> delay default_cfg * 1000
       < usec_of (tvs (flat two_eps_after ! 1)) - usec_of (tvs (flat two_eps_after ! 0))"
    by (rule mp)
  have a: "tvs (flat two_eps_after ! 0) = at_us 25200"
    "tvs (flat two_eps_after ! 1) = at_us 50500"
    using r v(1,2) by simp_all
  have a3: "delay default_cfg * 1000
       < usec_of (tvs (flat two_eps_after ! 1)) - usec_of (tvs (flat two_eps_after ! 0))"
    using r by blast
  from t n have b: "\<exists>p. p \<in> set (nap_passes (two_visits ! 1))
         \<and> delay default_cfg * 1000 < usec_of (now p) - usec_of (nap_start (two_visits ! 1))"
    by (simp add: Bex_def)
  from t have "1 < length (flat two_eps) \<and> socket (flat two_eps ! 0) = 0
      \<and> completes default_cfg two_visits 0 1 0 0 \<longrightarrow>
    flat two_eps_after ! 0 =
      finalized ((flat two_eps ! 0)\<lparr>socket := fst (sock (two_visits ! 0)),
                   tvs := started (two_visits ! 0)\<rparr>)
        (elapsed_us (upd_now (nap_passes (two_visits ! 1) ! 0)) (started (two_visits ! 0))) 0"
    by blast
  then have c: "flat two_eps_after ! 0
       = finalized ((flat two_eps ! 0)\<lparr>socket := 3, tvs := at_us 25200\<rparr>) 1234 0"
    using n z two_visits_completes v by simp
  from two_visits_run d two_eps_expanded two_visits_clock n i a a3 b z two_visits_completes c
  show ?thesis by (intro conjI)
qed

subsection \<open>main\<close>

text \<open>
  C10. Each round finalizes an endpoint at most once, so \<open>idx\<close> stays within the
  number of rounds, and the writes stay inside buffers that have as many slots as
  there are rounds (\<open>rounds_in_bounds\<close>, \<open>expanded_rounds_in_bounds\<close>). The buffers
  do not always have that many slots. \<open>happy -f hosts -q 4\<close>: \<open>import\<close> runs while
  the options are read, so \<open>expand\<close> allocates the buffers with the 3 slots of the
  default \<open>nqueries\<close>; the fourth round then writes \<open>values[3]\<close>. With \<open>-q 4\<close>
  before \<open>-f hosts\<close> the same run prints four samples.
\<close>

theorem option_order_overflows:
  "main world0 [(CHR ''f'', ''hosts''), (CHR ''q'', ''4'')] []
     [ok_round, ok_round, ok_round, ok_round] = Inl OutOfBounds"
  by code_simp

lemma option_order_fine:
  "main world0 [(CHR ''q'', ''4''), (CHR ''f'', ''hosts'')] []
     [ok_round, ok_round, ok_round, ok_round]
   = Inr (''localhost:80'' @ [CHR 0x0A] @
          '' 127.0.0.1                                    1.234    1.234    1.234    1.234''
          @ [CHR 0x0A])"
  by code_simp

end
